theory Spec2Isabelle
  imports Complex_Main
begin

section \<open>Python values and errors\<close>

text \<open>
  The notebooks work on numpy arrays of dtype object whose row 0 holds header strings and
  whose other rows hold numbers. The model keeps the two apart: a header row is a list of
  strings, a data row a list of numbers. Shoot counts read from a sheet are Python integers
  (\<open>int\<close>); values that went through a true division are kept as exact rationals
  (\<open>rat\<close>), so rounding is not modelled. Every exception the code can raise on such
  inputs is a value of \<open>error\<close>.
\<close>

datatype error = IndexError | KeyError string | ZeroDivisionError | ValueError | LoadError

text \<open>A cell of a header row that is being filled: \<open>Unset\<close> is the 0 left by np.zeros.\<close>

datatype hcell = Unset | Text string

text \<open>
  The correction log is a list of lines. A line is either the file marker the reading cell
  appends, or the f-string of \<open>aggregate_data\<close>, kept as its four fields:
  species, row index, ALL and FRESH.
\<close>

datatype log_entry = FileMark string | Correction string nat int int

text \<open>
  \<open>np.unique(xs, return_index=True)\<close> followed by \<open>unique[np.argsort(indices)]\<close>:
  the distinct elements in the order of their first occurrence.
\<close>

fun unique_first :: "'a list \<Rightarrow> 'a list" where
  "unique_first [] = []"
| "unique_first (x # xs) = x # filter (\<lambda>y. y \<noteq> x) (unique_first xs)"

section \<open>Data preparation: the per-path aggregator\<close>

text \<open>
  The array \<open>read_forest_data\<close> returns: row 0 carries the species name of every
  column, rows 1 and 2 are the measurement and height-level headers, rows 3.. are the
  sampling points. \<open>aggregate_data\<close> reads row 0 and rows 3.. only
  (\<open>data[i + 2]\<close> for \<open>i \<ge> 1\<close>), so the record keeps those.
\<close>

record raw_sheet =
  names_row :: "string list"
  points :: "int list list"

record aggregated =
  agg_header :: "hcell list"
  agg_rows :: "int list list"

text \<open>Row 0 of the output: \<open>for index, sp in enumerate(species)\<close>, three labels each.\<close>

fun header_loop :: "nat \<Rightarrow> string list \<Rightarrow> hcell list \<Rightarrow> error + hcell list" where
  "header_loop index [] hdr = Inr hdr"
| "header_loop index (sp # sps) hdr =
     (let start = index * 3 in
      if start + 2 < length hdr then
        header_loop (Suc index) sps
          (hdr[start := Text (sp @ '' all shoots''),
               start + 1 := Text (sp @ '' freshly browsed''),
               start + 2 := Text (sp @ '' old browsed'')])
      else Inl IndexError)"

text \<open>
  The body of \<open>for j in range(nr_species)\<close> for output row \<open>i\<close>, read from the raw
  row \<open>drow = data[i + 2]\<close>. The log is the global list, so it is threaded through and
  returned also when the step raises (\<open>species[j]\<close> out of range inside the f-string).
\<close>

definition aggregate_block ::
  "string list \<Rightarrow> int list \<Rightarrow> nat \<Rightarrow> nat \<Rightarrow> int list \<Rightarrow> log_entry list
     \<Rightarrow> (error + int list) \<times> log_entry list" where
  "aggregate_block species drow i j arow lg =
     (let start_unaggregated = j * 9;
          start_aggregated = j * 3;
          aggregated_shoots = sum_list (take 4 (drop start_unaggregated drow));
          aggregated_browsed = sum_list (take 4 (drop (start_unaggregated + 4) drow))
      in if aggregated_browsed > aggregated_shoots then
           (if j < length species then
              (Inr (arow[start_aggregated := aggregated_shoots + aggregated_browsed,
                         start_aggregated + 1 := aggregated_browsed,
                         start_aggregated + 2 := drow ! (start_unaggregated + 8)]),
               lg @ [Correction (species ! j) i aggregated_shoots aggregated_browsed])
            else (Inl IndexError, lg))
         else
           (Inr (arow[start_aggregated := aggregated_shoots,
                      start_aggregated + 1 := aggregated_browsed,
                      start_aggregated + 2 := drow ! (start_unaggregated + 8)]),
            lg))"

fun aggregate_blocks ::
  "string list \<Rightarrow> int list \<Rightarrow> nat \<Rightarrow> nat list \<Rightarrow> int list \<Rightarrow> log_entry list
     \<Rightarrow> (error + int list) \<times> log_entry list" where
  "aggregate_blocks species drow i [] arow lg = (Inr arow, lg)"
| "aggregate_blocks species drow i (j # js) arow lg =
     (case aggregate_block species drow i j arow lg of
        (Inl e, lg') \<Rightarrow> (Inl e, lg')
      | (Inr arow', lg') \<Rightarrow> aggregate_blocks species drow i js arow' lg')"

text \<open>
  The rows \<open>i \<ge> 1\<close> of \<open>for i in range(nr_rows)\<close>: output row \<open>i\<close> starts as the
  zeros of np.zeros and is filled from the raw row \<open>i + 2\<close>.
\<close>

fun aggregate_rows ::
  "string list \<Rightarrow> nat \<Rightarrow> nat \<Rightarrow> int list list \<Rightarrow> log_entry list
     \<Rightarrow> (error + int list list) \<times> log_entry list" where
  "aggregate_rows species nr_species i [] lg = (Inr [], lg)"
| "aggregate_rows species nr_species i (drow # drows) lg =
     (case aggregate_blocks species drow i [0..<nr_species] (replicate (nr_species * 3) 0) lg of
        (Inl e, lg') \<Rightarrow> (Inl e, lg')
      | (Inr arow, lg') \<Rightarrow>
          (case aggregate_rows species nr_species (Suc i) drows lg' of
             (Inl e, lg'') \<Rightarrow> (Inl e, lg'')
           | (Inr arows, lg'') \<Rightarrow> (Inr (arow # arows), lg'')))"

definition aggregate_data ::
  "raw_sheet \<Rightarrow> log_entry list \<Rightarrow> (error + aggregated) \<times> log_entry list" where
  "aggregate_data data lg =
     (let nr_species = length (names_row data) div 9;
          nr_columns = nr_species * 3;
          species = unique_first (names_row data)
      in case header_loop 0 species (replicate nr_columns Unset) of
           Inl e \<Rightarrow> (Inl e, lg)
         | Inr hdr \<Rightarrow>
             (case aggregate_rows species nr_species 1 (points data) lg of
                (Inl e, lg') \<Rightarrow> (Inl e, lg')
              | (Inr arows, lg') \<Rightarrow> (Inr \<lparr>agg_header = hdr, agg_rows = arows\<rparr>, lg')))"

text \<open>A raw sheet is rectangular: every sampling-point row is as wide as row 0.\<close>

definition rectangular :: "raw_sheet \<Rightarrow> bool" where
  "rectangular data = list_all (\<lambda>r. length r = length (names_row data)) (points data)"

text \<open>
  The header names as many distinct species as the sheet has blocks of nine columns: what
  \<open>read_forest_data\<close> writes when it broadcasts one name over each block and no two
  blocks share a name.
\<close>

definition names_match_blocks :: "raw_sheet \<Rightarrow> bool" where
  "names_match_blocks data =
     (length (unique_first (names_row data)) = length (names_row data) div 9)"

text \<open>Shoot counts are counts: no cell of a sampling-point row is negative.\<close>

definition counts_nonneg :: "raw_sheet \<Rightarrow> bool" where
  "counts_nonneg data = list_all (list_all (\<lambda>x. 0 \<le> x)) (points data)"

text \<open>The three values the aggregator computes for species block \<open>j\<close> of a raw row.\<close>

definition raw_shoots :: "int list \<Rightarrow> nat \<Rightarrow> int" where
  "raw_shoots drow j = sum_list (take 4 (drop (j * 9) drow))"

definition raw_browsed :: "int list \<Rightarrow> nat \<Rightarrow> int" where
  "raw_browsed drow j = sum_list (take 4 (drop (j * 9 + 4) drow))"

definition raw_old :: "int list \<Rightarrow> nat \<Rightarrow> int" where
  "raw_old drow j = drow ! (j * 9 + 8)"

definition corrected_shoots :: "int list \<Rightarrow> nat \<Rightarrow> int" where
  "corrected_shoots drow j =
     (if raw_shoots drow j < raw_browsed drow j then raw_shoots drow j + raw_browsed drow j
      else raw_shoots drow j)"

definition block_val :: "int list \<Rightarrow> nat \<Rightarrow> nat \<Rightarrow> int" where
  "block_val drow j c =
     (if c = 0 then corrected_shoots drow j
      else if c = 1 then raw_browsed drow j else raw_old drow j)"

text \<open>The log lines one block, and a run over the rows from index \<open>i\<close>, append.\<close>

definition block_log :: "string list \<Rightarrow> int list \<Rightarrow> nat \<Rightarrow> nat \<Rightarrow> log_entry list" where
  "block_log species drow i j =
     (if raw_shoots drow j < raw_browsed drow j
      then [Correction (species ! j) i (raw_shoots drow j) (raw_browsed drow j)] else [])"

fun rows_log :: "string list \<Rightarrow> nat \<Rightarrow> nat \<Rightarrow> int list list \<Rightarrow> log_entry list" where
  "rows_log species n i [] = []"
| "rows_log species n i (drow # drows) =
     concat (map (block_log species drow i) [0..<n]) @ rows_log species n (Suc i) drows"

text \<open>
  A sheet with one species and two sampling points; the first point is the scenario
  \<open>[2,0,0,0, 3,0,0,0, 1]\<close>.
\<close>

definition example_sheet :: raw_sheet where
  "example_sheet =
     \<lparr>names_row = replicate 9 ''Fagyal'',
      points = [[2, 0, 0, 0, 3, 0, 0, 0, 1], [4, 1, 0, 0, 2, 0, 0, 0, 0]]\<rparr>"

definition example_aggregated :: aggregated where
  "example_aggregated =
     \<lparr>agg_header = [Text ''Fagyal all shoots'', Text ''Fagyal freshly browsed'',
                    Text ''Fagyal old browsed''],
      agg_rows = [[5, 3, 1], [5, 2, 0]]\<rparr>"

section \<open>Data preparation: combining paths and reading the forests\<close>

text \<open>
  \<open>combine_forest\<close>: \<open>paths[0]\<close> raises IndexError on an empty list;
  \<open>np.concatenate\<close> raises ValueError when a later path has another number of columns.
\<close>

fun combine_loop :: "aggregated \<Rightarrow> aggregated list \<Rightarrow> error + aggregated" where
  "combine_loop combined [] = Inr combined"
| "combine_loop combined (array # rest) =
     (if length (agg_header array) = length (agg_header combined)
      then combine_loop (combined\<lparr>agg_rows := agg_rows combined @ agg_rows array\<rparr>) rest
      else Inl ValueError)"

definition combine_forest :: "aggregated list \<Rightarrow> error + aggregated" where
  "combine_forest paths =
     (case paths of
        [] \<Rightarrow> Inl IndexError
      | combined # _ \<Rightarrow>
          if length paths > 1 then combine_loop combined (tl paths) else Inr combined)"

text \<open>\<open>s.endswith(suffix)\<close>.\<close>

definition endswith :: "string \<Rightarrow> string \<Rightarrow> bool" where
  "endswith s suffix =
     (length suffix \<le> length s \<and> drop (length s - length suffix) s = suffix)"

text \<open>\<open>d[k] = v\<close> on an insertion-ordered dict.\<close>

fun dict_set :: "('k \<times> 'v) list \<Rightarrow> 'k \<Rightarrow> 'v \<Rightarrow> ('k \<times> 'v) list" where
  "dict_set [] k v = [(k, v)]"
| "dict_set ((k', v') # d) k v =
     (if k' = k then (k, v) # d else (k', v') # dict_set d k v)"

text \<open>
  The file system under \<open>./Forests/\<close>, in \<open>os.listdir\<close> order: an entry is a plain
  file or a folder of files. Reading a spreadsheet is input: a file carries the outcome of
  \<open>read_forest_data\<close> on it, the array or the exception raised.
\<close>

datatype dir_entry = PlainFile | Folder "(string \<times> (error + raw_sheet)) list"

text \<open>
  The inner loop of the reading cell. \<open>try: ... except: warnings.warn(...)\<close> catches
  what the reader or the aggregator raises; the warning names the file. The state is
  \<open>paths_data\<close>, the global log and the warnings issued.
\<close>

fun read_files ::
  "(string \<times> (error + raw_sheet)) list \<Rightarrow> aggregated list \<Rightarrow> log_entry list \<Rightarrow> string list
     \<Rightarrow> aggregated list \<times> log_entry list \<times> string list" where
  "read_files [] paths_data lg warns = (paths_data, lg, warns)"
| "read_files ((file_name, content) # files) paths_data lg warns =
     (if endswith file_name ''xlsx'' then
        (case content of
           Inl e \<Rightarrow> read_files files paths_data (lg @ [FileMark file_name]) (warns @ [file_name])
         | Inr data \<Rightarrow>
             (case aggregate_data data (lg @ [FileMark file_name]) of
                (Inl e, lg') \<Rightarrow> read_files files paths_data lg' (warns @ [file_name])
              | (Inr path_data, lg') \<Rightarrow> read_files files (paths_data @ [path_data]) lg' warns))
      else read_files files paths_data lg warns)"

text \<open>
  The outer loop: \<open>combine_forest(paths_data)\<close> stands outside the \<open>try\<close>, so what
  it raises ends the cell.
\<close>

fun read_folders ::
  "(string \<times> dir_entry) list \<Rightarrow> (string \<times> aggregated) list \<Rightarrow> log_entry list \<Rightarrow> string list
     \<Rightarrow> (error + (string \<times> aggregated) list) \<times> log_entry list \<times> string list" where
  "read_folders [] forests lg warns = (Inr forests, lg, warns)"
| "read_folders ((folder_name, entry) # rest) forests lg warns =
     (case entry of
        PlainFile \<Rightarrow> read_folders rest forests lg warns
      | Folder files \<Rightarrow>
          (case read_files files [] lg warns of
             (paths_data, lg', warns') \<Rightarrow>
               (case combine_forest paths_data of
                  Inl e \<Rightarrow> (Inl e, lg', warns')
                | Inr combined \<Rightarrow>
                    read_folders rest (dict_set forests folder_name combined) lg' warns')))"

definition reading_cell ::
  "(string \<times> dir_entry) list
     \<Rightarrow> (error + (string \<times> aggregated) list) \<times> log_entry list \<times> string list" where
  "reading_cell root_folder = read_folders root_folder [] [] []"

text \<open>
  Two forest folders: the only spreadsheet of the first cannot be read, the second holds
  the example sheet.
\<close>

definition failing_corpus :: "(string \<times> dir_entry) list" where
  "failing_corpus =
     [(''Recsk'', Folder [(''vonal 1.xlsx'', Inl LoadError)]),
      (''Havas'', Folder [(''vonal 2.xlsx'', Inr example_sheet)])]"

section \<open>Strings of header cells\<close>

text \<open>\<open>s.split(' ')\<close>: every space separates, so empty words are kept.\<close>

fun split_sp :: "string \<Rightarrow> string list" where
  "split_sp [] = [[]]"
| "split_sp (c # cs) =
     (if c = CHR '' '' then [] # split_sp cs
      else (case split_sp cs of [] \<Rightarrow> [[c]] | w # ws \<Rightarrow> (c # w) # ws))"

text \<open>\<open>' '.join(words)\<close>.\<close>

fun join_sp :: "string list \<Rightarrow> string" where
  "join_sp [] = []"
| "join_sp [w] = w"
| "join_sp (w # ws) = w @ '' '' @ join_sp ws"

text \<open>\<open>' '.join(cell.split(' ')[:-2])\<close> and \<open>' '.join(cell.split(' ')[-2:])\<close>.\<close>

definition species_of_header :: "string \<Rightarrow> string" where
  "species_of_header cell =
     join_sp (take (length (split_sp cell) - 2) (split_sp cell))"


text \<open>\<open>sub in s\<close> on strings.\<close>

fun py_in :: "string \<Rightarrow> string \<Rightarrow> bool" where
  "py_in sub [] = (sub = [])"
| "py_in sub (c # cs) = (take (length sub) (c # cs) = sub \<or> py_in sub cs)"

section \<open>Data preparation: species distribution within a forest\<close>

text \<open>
  A forest after the unknown species were collapsed: three columns per species, row 0 the
  header. The body of the loop that fills \<open>distributions[forest]\<close> follows. The table rows
  1 and 2 start as the floats of np.zeros; \<open>all_shoots\<close> is a Python integer.
\<close>

record forest_matrix =
  fm_header :: "string list"
  fm_rows :: "int list list"

record distribution =
  dist_species :: "string list"
  coverage :: "rat list"
  supply_perc :: "rat list"

definition count_cell ::
  "int list \<Rightarrow> nat \<Rightarrow> rat list \<times> rat list \<times> int \<Rightarrow> error + rat list \<times> rat list \<times> int" where
  "count_cell row j acc =
     (case acc of (cover, supply, all_shoots) \<Rightarrow>
        if j * 3 < length row then
          (let offered_shoots = row ! (j * 3) in
           if offered_shoots \<noteq> 0 then
             Inr (cover[j := cover ! j + 1], supply[j := supply ! j + of_int offered_shoots],
                  all_shoots + offered_shoots)
           else Inr acc)
        else Inl IndexError)"

fun count_row ::
  "int list \<Rightarrow> nat list \<Rightarrow> rat list \<times> rat list \<times> int \<Rightarrow> error + rat list \<times> rat list \<times> int" where
  "count_row row [] acc = Inr acc"
| "count_row row (j # js) acc =
     (case count_cell row j acc of Inl e \<Rightarrow> Inl e | Inr acc' \<Rightarrow> count_row row js acc')"

fun count_rows ::
  "int list list \<Rightarrow> nat \<Rightarrow> rat list \<times> rat list \<times> int \<Rightarrow> error + rat list \<times> rat list \<times> int" where
  "count_rows [] nr_species acc = Inr acc"
| "count_rows (row # rows) nr_species acc =
     (case count_row row [0..<nr_species] acc of
        Inl e \<Rightarrow> Inl e
      | Inr acc' \<Rightarrow> count_rows rows nr_species acc')"

text \<open>
  An object array divided by a Python number: the elements are divided one by one with
  Python's \<open>/\<close>, which raises ZeroDivisionError on a zero divisor; an empty array has no
  element to divide.
\<close>

definition np_divide :: "rat list \<Rightarrow> rat \<Rightarrow> error + rat list" where
  "np_divide xs d =
     (if xs = [] then Inr []
      else if d = 0 then Inl ZeroDivisionError
      else Inr (map (\<lambda>x. x / d) xs))"

definition distributions :: "forest_matrix \<Rightarrow> error + distribution" where
  "distributions data =
     (let sampling_points = length (fm_rows data);
          species = unique_first (map species_of_header (fm_header data));
          nr_species = length species
      in case count_rows (fm_rows data) nr_species
                (replicate nr_species 0, replicate nr_species 0, 0) of
           Inl e \<Rightarrow> Inl e
         | Inr (cover, supply, all_shoots) \<Rightarrow>
             (case np_divide cover (of_nat sampling_points) of
                Inl e \<Rightarrow> Inl e
              | Inr coverages \<Rightarrow>
                  (case np_divide supply (of_int all_shoots) of
                     Inl e \<Rightarrow> Inl e
                   | Inr supplyPerces \<Rightarrow>
                       Inr \<lparr>dist_species = species, coverage = coverages,
                            supply_perc = supplyPerces\<rparr>)))"

text \<open>
  What the claims speak of, as plain sums over the data rows: the points at which species
  \<open>j\<close> offers shoots, the shoots it offers, and the shoots of all species at all points.
\<close>

definition species_points :: "forest_matrix \<Rightarrow> nat \<Rightarrow> nat" where
  "species_points data j = length (filter (\<lambda>row. row ! (j * 3) \<noteq> 0) (fm_rows data))"

definition species_shoots :: "forest_matrix \<Rightarrow> nat \<Rightarrow> int" where
  "species_shoots data j = sum_list (map (\<lambda>row. row ! (j * 3)) (fm_rows data))"

definition forest_shoots :: "forest_matrix \<Rightarrow> int" where
  "forest_shoots data =
     sum_list (map (\<lambda>row. sum_list (map (\<lambda>j. row ! (j * 3))
        [0..<length (unique_first (map species_of_header (fm_header data)))])) (fm_rows data))"

text \<open>
  The header names no more species than the matrix has column triples, and every row is
  as wide as the header.
\<close>

definition forest_shape :: "forest_matrix \<Rightarrow> bool" where
  "forest_shape data =
     (length (unique_first (map species_of_header (fm_header data))) * 3
        \<le> length (fm_header data)
      \<and> list_all (\<lambda>r. length r = length (fm_header data)) (fm_rows data))"

text \<open>A forest of one species and one sampling point with no shoots at all.\<close>

definition empty_forest :: forest_matrix where
  "empty_forest =
     \<lparr>fm_header = [''Fagyal all shoots'', ''Fagyal freshly browsed'', ''Fagyal old browsed''],
      fm_rows = [[0, 0, 0]]\<rparr>"

text \<open>A forest of two species and two sampling points.\<close>

definition small_forest :: forest_matrix where
  "small_forest =
     \<lparr>fm_header = [''Fagyal all shoots'', ''Fagyal freshly browsed'', ''Fagyal old browsed'',
                   ''Bodza all shoots'', ''Bodza freshly browsed'', ''Bodza old browsed''],
      fm_rows = [[1, 0, 0, 3, 0, 0], [0, 0, 0, 4, 1, 1]]\<rparr>"

section \<open>Data preparation: merging the forests\<close>

text \<open>
  A forest after the distribution columns were inserted (five columns per species), and
  the combined dataset. Both carry their header row apart from the data rows.
\<close>

record enriched =
  e_header :: "string list"
  e_rows :: "rat list list"

record dataset =
  ds_header :: "string list"
  ds_rows :: "rat list list"

text \<open>The species of one forest, and of all forests in first-seen order.\<close>

definition forest_species :: "enriched \<Rightarrow> string list" where
  "forest_species data =
     map (\<lambda>i. species_of_header (e_header data ! (i * 5)))
       [0..<length (e_header data) div 5]"

definition canonical_species :: "(string \<times> enriched) list \<Rightarrow> string list" where
  "canonical_species forests =
     unique_first (concat (map (\<lambda>(forest, data). forest_species data) forests))"

text \<open>\<open>nr_rows\<close>: the data rows of all forests.\<close>

definition total_rows :: "(string \<times> enriched) list \<Rightarrow> nat" where
  "total_rows forests = sum_list (map (\<lambda>(forest, data). length (e_rows data)) forests)"

text \<open>Row 0 of the dataset: five labels per species, written at \<open>i*5 .. i*5 + 4\<close>.\<close>

definition species_labels :: "string \<Rightarrow> string list" where
  "species_labels sp =
     [sp @ '' all shoots'', sp @ '' freshly browsed'', sp @ '' old browsed'',
      sp @ '' forest coverage'', sp @ '' supply percentage'']"

definition dataset_header :: "string list \<Rightarrow> string list" where
  "dataset_header species = concat (map species_labels species)"

text \<open>\<open>np.where(dataset[0] == header)[0][0]\<close>: the first column with that header.\<close>

fun np_where_first :: "'a \<Rightarrow> 'a list \<Rightarrow> nat option" where
  "np_where_first x [] = None"
| "np_where_first x (y # ys) =
     (if y = x then Some 0 else map_option Suc (np_where_first x ys))"

text \<open>
  The three loops of the copying cell. \<open>dataset_row\<close> counts from 1 as in the code;
  the data rows of the model start at 0, so row \<open>dataset_row\<close> of the array is
  \<open>rows ! (dataset_row - 1)\<close>.
\<close>

fun copy_cols ::
  "string list \<Rightarrow> string list \<Rightarrow> rat list \<Rightarrow> nat list \<Rightarrow> nat \<Rightarrow> rat list list
     \<Rightarrow> error + rat list list" where
  "copy_cols dh fh frow [] dataset_row rows = Inr rows"
| "copy_cols dh fh frow (j # js) dataset_row rows =
     (case np_where_first (fh ! j) dh of
        None \<Rightarrow> Inl IndexError
      | Some dataset_col \<Rightarrow>
          if dataset_row - 1 < length rows then
            copy_cols dh fh frow js dataset_row
              (rows[dataset_row - 1 := (rows ! (dataset_row - 1))[dataset_col := frow ! j]])
          else Inl IndexError)"

fun copy_rows ::
  "string list \<Rightarrow> string list \<Rightarrow> rat list list \<Rightarrow> nat \<Rightarrow> rat list list
     \<Rightarrow> error + rat list list \<times> nat" where
  "copy_rows dh fh [] dataset_row rows = Inr (rows, dataset_row)"
| "copy_rows dh fh (frow # frows) dataset_row rows =
     (case copy_cols dh fh frow [0..<length fh] dataset_row rows of
        Inl e \<Rightarrow> Inl e
      | Inr rows' \<Rightarrow> copy_rows dh fh frows (Suc dataset_row) rows')"

fun copy_forests ::
  "string list \<Rightarrow> (string \<times> enriched) list \<Rightarrow> nat \<Rightarrow> rat list list
     \<Rightarrow> error + rat list list" where
  "copy_forests dh [] dataset_row rows = Inr rows"
| "copy_forests dh ((forest, data) # forests) dataset_row rows =
     (case copy_rows dh (e_header data) (e_rows data) dataset_row rows of
        Inl e \<Rightarrow> Inl e
      | Inr (rows', dataset_row') \<Rightarrow> copy_forests dh forests dataset_row' rows')"

definition build_dataset :: "(string \<times> enriched) list \<Rightarrow> error + dataset" where
  "build_dataset forests =
     (let species = canonical_species forests;
          nr_species = length species;
          nr_rows = total_rows forests;
          dh = dataset_header species
      in case copy_forests dh forests 1 (replicate nr_rows (replicate (nr_species * 5) 0)) of
           Inl e \<Rightarrow> Inl e
         | Inr rows \<Rightarrow> Inr \<lparr>ds_header = dh, ds_rows = rows\<rparr>)"

text \<open>
  An enriched forest is well formed when its header is the five labels of each of its
  species, and its rows are as wide as the header.
\<close>

definition enriched_wf :: "enriched \<Rightarrow> bool" where
  "enriched_wf data =
     (e_header data = dataset_header (forest_species data)
      \<and> list_all (\<lambda>r. length r = length (e_header data)) (e_rows data))"

text \<open>The dataset rows that come before those of forest number \<open>f\<close>.\<close>

definition rows_before :: "(string \<times> enriched) list \<Rightarrow> nat \<Rightarrow> nat" where
  "rows_before forests f = total_rows (take f forests)"

text \<open>
  Two forests: the first has Fagyal and Bodza, the second Szeder and Fagyal, with one and
  two sampling points.
\<close>

definition two_forests :: "(string \<times> enriched) list" where
  "two_forests =
     [(''Recsk'',
       \<lparr>e_header = species_labels ''Fagyal'' @ species_labels ''Bodza'',
        e_rows = [[1, 2, 3, 4, 5, 6, 7, 8, 9, 10]]\<rparr>),
      (''Havas'',
       \<lparr>e_header = species_labels ''Szeder'' @ species_labels ''Fagyal'',
        e_rows = [[11, 12, 13, 14, 15, 16, 17, 18, 19, 20],
                  [21, 22, 23, 24, 25, 26, 27, 28, 29, 30]]\<rparr>)]"

definition two_forests_dataset :: dataset where
  "two_forests_dataset =
     \<lparr>ds_header = species_labels ''Fagyal'' @ species_labels ''Bodza''
                    @ species_labels ''Szeder'',
      ds_rows = [[1, 2, 3, 4, 5, 6, 7, 8, 9, 10, 0, 0, 0, 0, 0],
                 [16, 17, 18, 19, 20, 0, 0, 0, 0, 0, 11, 12, 13, 14, 15],
                 [26, 27, 28, 29, 30, 0, 0, 0, 0, 0, 21, 22, 23, 24, 25]]\<rparr>"

section \<open>Data preparation: the finishing cells\<close>

text \<open>
  Normalizing the freshly browsed columns, in place and column by column. For column 0
  the index \<open>j - 1\<close> is -1, the last column.
\<close>

definition normalize_cell :: "nat \<Rightarrow> nat \<Rightarrow> rat list \<Rightarrow> rat list" where
  "normalize_cell cols j row =
     (let all_offered = row ! (if j = 0 then cols - 1 else j - 1) in
      if all_offered \<noteq> 0 then row[j := row ! j / all_offered]
      else if row ! j \<noteq> 0 then row[j := 0]
      else row)"

definition normalize_column :: "string list \<Rightarrow> nat \<Rightarrow> rat list list \<Rightarrow> rat list list" where
  "normalize_column header j rows =
     (if py_in ''freshly browsed'' (header ! j)
      then map (normalize_cell (length header) j) rows
      else rows)"

definition normalize_freshly_browsed :: "dataset \<Rightarrow> dataset" where
  "normalize_freshly_browsed ds =
     ds\<lparr>ds_rows := fold (normalize_column (ds_header ds)) [0..<length (ds_header ds)]
                     (ds_rows ds)\<rparr>"







text \<open>Example datasets for the finishing cells.\<close>

definition counted_dataset :: dataset where
  "counted_dataset =
     \<lparr>ds_header = [''Fagyal all shoots'', ''Fagyal freshly browsed'', ''Fagyal old browsed''],
      ds_rows = [[4, 2, 1], [0, 3, 0], [0, 0, 2]]\<rparr>"



section \<open>The inference pipeline\<close>

text \<open>
  The loaded sheet: the column names and \<open>ts_values\<close>, one row per sampling point (the
  header row of the sheet is not a row of \<open>ts_values\<close>). All values are floats here,
  kept as rationals.
\<close>

record sheet =
  sheet_species :: "string list"
  ts_values :: "rat list list"

text \<open>The body of the two loops over \<open>properties_table\<close>, and the cell itself.\<close>

definition ts_step ::
  "rat list \<Rightarrow> nat \<Rightarrow> rat list \<times> rat list \<times> rat \<Rightarrow> rat list \<times> rat list \<times> rat" where
  "ts_step row j acc =
     (case acc of (f, rps, all_shoots) \<Rightarrow>
        (let ts = row ! j in
         if ts \<noteq> 0 then (f[j := f ! j + 1], rps[j := rps ! j + ts], all_shoots + ts)
         else acc))"

definition properties_table :: "sheet \<Rightarrow> error + rat list \<times> rat list" where
  "properties_table sh =
     (let sampling_points = length (ts_values sh);
          nr_species = length (sheet_species sh)
      in case fold (\<lambda>row. fold (ts_step row) [0..<nr_species]) (drop 1 (ts_values sh))
                (replicate nr_species 0, replicate nr_species 0, 0) of
           (f, rps, all_shoots) \<Rightarrow>
             (case np_divide f (of_nat sampling_points) of
                Inl e \<Rightarrow> Inl e
              | Inr f_values \<Rightarrow>
                  (case np_divide rps all_shoots of
                     Inl e \<Rightarrow> Inl e
                   | Inr rps_values \<Rightarrow> Inr (f_values, rps_values))))"

text \<open>
  Frequency and relative proportion of supply as the specification words them:
  the sampling points with a nonzero count over all sampling points, and the shoots of the
  species over the shoots of the forest.
\<close>

definition spec_frequency :: "sheet \<Rightarrow> nat \<Rightarrow> rat" where
  "spec_frequency sh j =
     of_nat (length (filter (\<lambda>row. row ! j \<noteq> 0) (ts_values sh)))
       / of_nat (length (ts_values sh))"

definition spec_rps :: "sheet \<Rightarrow> nat \<Rightarrow> rat" where
  "spec_rps sh j =
     sum_list (map (\<lambda>row. row ! j) (ts_values sh))
       / sum_list (map sum_list (ts_values sh))"

text \<open>The table with the TS, F and RPS column of every species.\<close>

definition unaggregated_data :: "sheet \<Rightarrow> rat list \<Rightarrow> rat list \<Rightarrow> rat list list" where
  "unaggregated_data sh f_values rps_values =
     map (\<lambda>row. concat (map (\<lambda>i. [row ! i, f_values ! i, rps_values ! i])
                          [0..<length (sheet_species sh)]))
       (ts_values sh)"

text \<open>Sections of five adjacent points: TS is summed, F and RPS are taken from the first.\<close>

definition sections :: "rat list list \<Rightarrow> nat \<Rightarrow> rat list list" where
  "sections unaggregated nr_species =
     map (\<lambda>i. concat (map (\<lambda>j.
            [sum_list (map (\<lambda>r. r ! (j * 3)) (take 5 (drop (i * 5) unaggregated))),
             unaggregated ! (i * 5) ! (j * 3 + 1),
             unaggregated ! (i * 5) ! (j * 3 + 2)])
          [0..<nr_species]))
       [0..<length unaggregated div 5]"

text \<open>
  \<open>normalize_TS\<close>: min-max over the sections for every third column. The minimum of a
  column of an array without rows raises ValueError.
\<close>

definition smoothing :: rat where
  "smoothing = 1 / 100000"

definition col_min :: "rat list list \<Rightarrow> nat \<Rightarrow> rat" where
  "col_min X c = fold min (map (\<lambda>r. r ! c) (tl X)) (hd X ! c)"

definition col_max :: "rat list list \<Rightarrow> nat \<Rightarrow> rat" where
  "col_max X c = fold max (map (\<lambda>r. r ! c) (tl X)) (hd X ! c)"

definition normalize_TS :: "rat list list \<Rightarrow> error + rat list list" where
  "normalize_TS X =
     (if X = [] then Inl ValueError
      else Inr (map (\<lambda>row. map (\<lambda>i. if i mod 3 = 0
                                     then (row ! i - col_min X i)
                                            / (col_max X i - col_min X i + smoothing)
                                     else row ! i)
                             [0..<length row]) X))"

text \<open>
  The regressors are opaque: \<open>models i\<close> maps the feature matrix to one prediction per
  row. \<open>section_estimates[:, i] = models[i].predict(data)\<close>.
\<close>

definition section_estimates ::
  "(nat \<Rightarrow> rat list list \<Rightarrow> rat list) \<Rightarrow> rat list list \<Rightarrow> nat \<Rightarrow> rat list list" where
  "section_estimates models data nr_species =
     map (\<lambda>s. map (\<lambda>i. models i data ! s) [0..<nr_species]) [0..<length data]"

definition noSupply_value :: rat where
  "noSupply_value = - (1 / 100000)"

definition adjust_predictions :: "rat list list \<Rightarrow> rat list list \<Rightarrow> rat \<Rightarrow> rat list list" where
  "adjust_predictions y_pred X noSupply =
     map (\<lambda>i. map (\<lambda>j. if X ! i ! (j * 3) = 0 then noSupply
                        else if y_pred ! i ! j < 0 then 0
                        else y_pred ! i ! j)
                [0..<length (y_pred ! i)])
       [0..<length y_pred]"

text \<open>The weights and the weighted sum of the last cell.\<close>

definition section_contributions :: "rat list list \<Rightarrow> nat \<Rightarrow> rat list" where
  "section_contributions data sp =
     map (\<lambda>section. data ! section ! (sp * 3)
                       / sum_list (map (\<lambda>r. r ! (sp * 3)) data))
       [0..<length data]"

definition forest_estimates :: "rat list list \<Rightarrow> rat list list \<Rightarrow> nat \<Rightarrow> rat list" where
  "forest_estimates data estimates nr_species =
     map (\<lambda>sp. let total_shoots = sum_list (map (\<lambda>r. r ! (sp * 3)) data) in
               if total_shoots \<noteq> 0 then
                 sum_list (map (\<lambda>(index, contribution). contribution * estimates ! index ! sp)
                             (enumerate 0 (section_contributions data sp)))
               else noSupply_value)
       [0..<nr_species]"

text \<open>The notebook from the loaded sheet to the forecast, with the tables on the way.\<close>

record forecast =
  fc_sections :: "rat list list"
  fc_data :: "rat list list"
  fc_predicted :: "rat list list"
  fc_section_estimates :: "rat list list"
  fc_forest_estimates :: "rat list"

definition browsing_forecast ::
  "sheet \<Rightarrow> (nat \<Rightarrow> rat list list \<Rightarrow> rat list) \<Rightarrow> error + forecast" where
  "browsing_forecast sh models =
     (let nr_species = length (sheet_species sh) in
      case properties_table sh of
        Inl e \<Rightarrow> Inl e
      | Inr (f_values, rps_values) \<Rightarrow>
          (let aggregated_sections =
                 sections (unaggregated_data sh f_values rps_values) nr_species in
           case normalize_TS aggregated_sections of
             Inl e \<Rightarrow> Inl e
           | Inr data \<Rightarrow>
               (let predicted = section_estimates models data nr_species;
                    estimates = adjust_predictions predicted data noSupply_value
                in Inr \<lparr>fc_sections = aggregated_sections, fc_data = data,
                        fc_predicted = predicted, fc_section_estimates = estimates,
                        fc_forest_estimates = forest_estimates data estimates nr_species\<rparr>)))"

text \<open>
  The share of a forest's shoots of a species that a section holds, as the specification
  words the weight.
\<close>

definition spec_weight :: "rat list list \<Rightarrow> nat \<Rightarrow> nat \<Rightarrow> rat" where
  "spec_weight aggregated_sections sp section =
     aggregated_sections ! section ! (sp * 3)
       / sum_list (map (\<lambda>r. r ! (sp * 3)) aggregated_sections)"

text \<open>
  A sheet of the documented format: 27 species, 10 sampling points. The first species
  has 1 shoot at each of the first five points and 2 at each of the last five; the second
  has 3 shoots at the first point only.
\<close>

definition latin_species :: "string list" where
  "latin_species =
      [''Unknown'', ''Quercus petraea'', ''Quercus cerris'', ''Fraxinus excelsior'',
       ''Fraxinus ornus'', ''Carpinus betulus'', ''Fagus sylvatica'',
       ''Acer pseudoplatanus'', ''Acer platanoides'', ''Acer campestre'',
       ''Pinus sylvestris'', ''Robinia pseudoacacia'', ''Ligustrum vulgare'',
       ''Crataegus monogyna'', ''Cornus mas'', ''Cornus sanguinea'',
       ''Prunus spinosa'', ''Rubus fruticosus'', ''Rosa canina'', ''Acer tataricum'',
       ''Prunus avium'', ''Corylus avellana'', ''Ulmus minor'', ''Sorbus aucuparia'',
       ''Pyrus pyraster'', ''Euonymus verrucosus'', ''Quercus pubescens'']"

definition forecast_sheet :: sheet where
  "forecast_sheet =
     \<lparr>sheet_species = latin_species,
      ts_values =
        [[1, 3] @ replicate 25 0] @ replicate 4 ([1, 0] @ replicate 25 0)
          @ replicate 5 ([2, 0] @ replicate 25 0)\<rparr>"

text \<open>Regressors that predict 1/4 for the first section, 2/4 for the second, and so on.\<close>

definition example_models :: "nat \<Rightarrow> rat list list \<Rightarrow> rat list" where
  "example_models i data = map (\<lambda>s. of_nat (Suc s) / 4) [0..<length data]"

section \<open>The per-path aggregator: what a run returns\<close>

lemma aggregate_block_Inr:
  assumes "aggregate_block species drow i j arow lg = (Inr arow', lg')"
  shows "arow' = arow[j * 3 := corrected_shoots drow j, j * 3 + 1 := raw_browsed drow j,
                      j * 3 + 2 := raw_old drow j]
         \<and> lg' = lg @ block_log species drow i j"
  using assms
  by (auto simp: aggregate_block_def Let_def corrected_shoots_def raw_shoots_def
        raw_browsed_def raw_old_def block_log_def split: if_splits)

lemma block_update_nth:
  assumes "m < length arow"
  shows "arow[j * 3 := a, j * 3 + 1 := b, j * 3 + 2 := c] ! m =
         (if m div 3 = j then (if m mod 3 = 0 then a else if m mod 3 = 1 then b else c)
          else arow ! m)"
proof (cases "m div 3 = j")
  case True
  have m: "m = j * 3 + m mod 3" using True by presburger
  have "m mod 3 = 0 \<or> m mod 3 = 1 \<or> m mod 3 = 2" by presburger
  then show ?thesis
  proof (elim disjE)
    assume c: "m mod 3 = 0"
    then have "m = j * 3" using m by simp
    then show ?thesis using assms True c by simp
  next
    assume c: "m mod 3 = 1"
    then have "m = j * 3 + 1" using m by simp
    then show ?thesis using assms True c by simp
  next
    assume c: "m mod 3 = 2"
    then have "m = j * 3 + 2" using m by simp
    then show ?thesis using assms True c by simp
  qed
next
  case False
  then have "m \<noteq> j * 3" "m \<noteq> j * 3 + 1" "m \<noteq> j * 3 + 2" by presburger+
  then show ?thesis using False by simp
qed

lemma aggregate_blocks_Inr:
  assumes "aggregate_blocks species drow i js arow lg = (Inr arow', lg')"
  shows "length arow' = length arow
       \<and> (\<forall>m < length arow. arow' ! m =
             (if m div 3 \<in> set js then block_val drow (m div 3) (m mod 3) else arow ! m))
       \<and> lg' = lg @ concat (map (block_log species drow i) js)"
  using assms
proof (induction js arbitrary: arow lg)
  case Nil
  then show ?case by simp
next
  case (Cons j js)
  from Cons.prems obtain arow1 lg1 where
    step: "aggregate_block species drow i j arow lg = (Inr arow1, lg1)" and
    rest: "aggregate_blocks species drow i js arow1 lg1 = (Inr arow', lg')"
    by (auto split: prod.splits sum.splits)
  from aggregate_block_Inr [OF step] have
    a1: "arow1 = arow[j * 3 := corrected_shoots drow j, j * 3 + 1 := raw_browsed drow j,
                      j * 3 + 2 := raw_old drow j]" and
    l1: "lg1 = lg @ block_log species drow i j" by simp_all
  have len1: "length arow1 = length arow" using a1 by simp
  have nth1: "arow1 ! m = (if m div 3 = j then block_val drow j (m mod 3) else arow ! m)"
    if "m < length arow" for m
    using block_update_nth [OF that] a1 by (simp add: block_val_def)
  from Cons.IH [OF rest] have
    len: "length arow' = length arow1" and
    nth: "\<forall>m < length arow1. arow' ! m =
             (if m div 3 \<in> set js then block_val drow (m div 3) (m mod 3) else arow1 ! m)" and
    lg: "lg' = lg1 @ concat (map (block_log species drow i) js)" by simp_all
  show ?case using len len1 nth nth1 lg l1 by auto
qed

lemma aggregate_rows_Inr:
  assumes "aggregate_rows species n i drows lg = (Inr arows, lg')"
  shows "length arows = length drows
       \<and> (\<forall>k < length drows. length (arows ! k) = n * 3
             \<and> (\<forall>m < n * 3. arows ! k ! m = block_val (drows ! k) (m div 3) (m mod 3)))
       \<and> lg' = lg @ rows_log species n i drows"
  using assms
proof (induction drows arbitrary: i lg arows)
  case Nil
  then show ?case by simp
next
  case (Cons drow drows)
  from Cons.prems obtain arow lg1 arows1 where
    row: "aggregate_blocks species drow i [0..<n] (replicate (n * 3) 0) lg = (Inr arow, lg1)" and
    rest: "aggregate_rows species n (Suc i) drows lg1 = (Inr arows1, lg')" and
    res: "arows = arow # arows1"
    by (auto split: prod.splits sum.splits)
  from aggregate_blocks_Inr [OF row] have
    len: "length arow = n * 3" and
    nth: "\<forall>m < n * 3. arow ! m = block_val drow (m div 3) (m mod 3)" and
    l1: "lg1 = lg @ concat (map (block_log species drow i) [0..<n])"
    by (auto simp: less_mult_imp_div_less)
  from Cons.IH [OF rest] have
    len': "length arows1 = length drows" and
    nth': "\<forall>k < length drows. length (arows1 ! k) = n * 3
             \<and> (\<forall>m < n * 3. arows1 ! k ! m = block_val (drows ! k) (m div 3) (m mod 3))" and
    l2: "lg' = lg1 @ rows_log species n (Suc i) drows" by simp_all
  have "\<forall>k < length (drow # drows). length (arows ! k) = n * 3
             \<and> (\<forall>m < n * 3. arows ! k ! m = block_val ((drow # drows) ! k) (m div 3) (m mod 3))"
  proof (intro allI impI)
    fix k assume "k < length (drow # drows)"
    then show "length (arows ! k) = n * 3
             \<and> (\<forall>m < n * 3. arows ! k ! m = block_val ((drow # drows) ! k) (m div 3) (m mod 3))"
      using res len nth nth' by (cases k) auto
  qed
  then show ?case using res len' l1 l2 by simp
qed

lemma aggregate_data_Inr:
  assumes "aggregate_data data lg = (Inr agg, lg')"
  shows "length (agg_rows agg) = length (points data)
       \<and> (\<forall>k < length (points data). length (agg_rows agg ! k) = length (names_row data) div 9 * 3
             \<and> (\<forall>m < length (names_row data) div 9 * 3.
                   agg_rows agg ! k ! m = block_val (points data ! k) (m div 3) (m mod 3)))
       \<and> lg' = lg @ rows_log (unique_first (names_row data)) (length (names_row data) div 9) 1
                       (points data)"
proof -
  from assms obtain arows where
    rows: "aggregate_rows (unique_first (names_row data)) (length (names_row data) div 9) 1
             (points data) lg = (Inr arows, lg')" and
    agg: "agg_rows agg = arows"
    by (auto simp: aggregate_data_def Let_def split: sum.splits prod.splits)
  show ?thesis using aggregate_rows_Inr [OF rows] agg by simp
qed

lemma block_index_arith:
  fixes j :: nat
  shows "(j * 3) div 3 = j" "(j * 3) mod 3 = 0"
    "(j * 3 + 1) div 3 = j" "(j * 3 + 1) mod 3 = 1"
    "(j * 3 + 2) div 3 = j" "(j * 3 + 2) mod 3 = 2"
  by presburger+

lemma aggregate_data_cells:
  assumes "aggregate_data data lg = (Inr agg, lg')"
    and "k < length (points data)"
    and "j < length (names_row data) div 9"
  shows "agg_rows agg ! k ! (j * 3) = corrected_shoots (points data ! k) j"
    and "agg_rows agg ! k ! (j * 3 + 1) = raw_browsed (points data ! k) j"
    and "agg_rows agg ! k ! (j * 3 + 2) = raw_old (points data ! k) j"
proof -
  let ?n = "length (names_row data) div 9"
  from aggregate_data_Inr [OF assms(1)] assms(2) have
    cells: "\<And>m. m < ?n * 3 \<Longrightarrow>
              agg_rows agg ! k ! m = block_val (points data ! k) (m div 3) (m mod 3)"
    by simp
  have lt: "j * 3 < ?n * 3" "j * 3 + 1 < ?n * 3" "j * 3 + 2 < ?n * 3"
    using assms(3) by simp_all
  show "agg_rows agg ! k ! (j * 3) = corrected_shoots (points data ! k) j"
    using cells [OF lt(1)] by (simp only: block_index_arith block_val_def) simp
  show "agg_rows agg ! k ! (j * 3 + 1) = raw_browsed (points data ! k) j"
    using cells [OF lt(2)] by (simp only: block_index_arith block_val_def) simp
  show "agg_rows agg ! k ! (j * 3 + 2) = raw_old (points data ! k) j"
    using cells [OF lt(3)] by (simp only: block_index_arith block_val_def) simp
qed

lemma raw_shoots_nonneg:
  assumes "list_all (\<lambda>x. 0 \<le> x) drow"
  shows "0 \<le> raw_shoots drow j"
proof -
  have "\<forall>x \<in> set (take 4 (drop (j * 9) drow)). 0 \<le> x"
    using assms by (auto simp: list_all_iff dest!: in_set_takeD in_set_dropD)
  then show ?thesis unfolding raw_shoots_def by (simp add: sum_list_nonneg)
qed

lemma corrected_ge_browsed:
  assumes "0 \<le> raw_shoots drow j"
  shows "raw_browsed drow j \<le> corrected_shoots drow j"
  using assms by (simp add: corrected_shoots_def)

text \<open>
  Claim C1. In every matrix \<open>aggregate_data\<close> returns for a sheet of counts (no negative
  cell), every data row \<open>k\<close> and every species block \<open>j\<close> has
  all_shoots (column \<open>3j\<close>) at least freshly_browsed (column \<open>3j + 1\<close>).
\<close>

theorem aggregate_data_invariant:
  assumes "aggregate_data data lg = (Inr agg, lg')"
    and "counts_nonneg data"
    and "k < length (agg_rows agg)"
    and "j < length (names_row data) div 9"
  shows "agg_rows agg ! k ! (j * 3 + 1) \<le> agg_rows agg ! k ! (j * 3)"
proof -
  from aggregate_data_Inr [OF assms(1)] have
    len: "length (agg_rows agg) = length (points data)" by simp
  have k: "k < length (points data)" using assms(3) len by simp
  have nonneg: "list_all (\<lambda>x. 0 \<le> x) (points data ! k)"
    using assms(2) k by (simp add: counts_nonneg_def list_all_length)
  show ?thesis
    using aggregate_data_cells(1,2) [OF assms(1) k assms(4)]
      corrected_ge_browsed [OF raw_shoots_nonneg [OF nonneg]] by simp
qed

lemma example_run:
  "aggregate_data example_sheet [] = (Inr example_aggregated, [Correction ''Fagyal'' 1 2 3])"
  by code_simp

text \<open>
  The invariant at the example sheet: its first point records 2 shoots and 3 browsed, and
  the run returns 5 and 3.
\<close>

theorem aggregate_data_invariant_witness:
  "aggregate_data example_sheet [] = (Inr example_aggregated, [Correction ''Fagyal'' 1 2 3])
   \<and> counts_nonneg example_sheet
   \<and> agg_rows example_aggregated ! 0 ! (0 * 3 + 1) \<le> agg_rows example_aggregated ! 0 ! (0 * 3)
   \<and> agg_rows example_aggregated ! 0 ! 1 = 3 \<and> agg_rows example_aggregated ! 0 ! 0 = 5"
proof -
  have nn: "counts_nonneg example_sheet"
    by (simp add: counts_nonneg_def example_sheet_def)
  have k: "0 < length (agg_rows example_aggregated)"
    by (simp add: example_aggregated_def)
  have j: "0 < length (names_row example_sheet) div 9"
    by (simp add: example_sheet_def)
  show ?thesis
    using aggregate_data_invariant [OF example_run nn k j] example_run nn
    by (simp add: example_aggregated_def)
qed

lemma block_log_mem:
  "(Correction (species ! j) i (raw_shoots drow j) (raw_browsed drow j)
      \<in> set (block_log species drow i j))
   = (raw_shoots drow j < raw_browsed drow j)"
  by (simp add: block_log_def)

lemma rows_log_mem:
  assumes "k < length drows" and "j < n"
    and "raw_shoots (drows ! k) j < raw_browsed (drows ! k) j"
  shows "Correction (species ! j) (i + k) (raw_shoots (drows ! k) j) (raw_browsed (drows ! k) j)
           \<in> set (rows_log species n i drows)"
  using assms
proof (induction drows arbitrary: i k)
  case Nil
  then show ?case by simp
next
  case (Cons drow drows)
  show ?case
  proof (cases k)
    case 0
    then show ?thesis using Cons.prems by (auto simp: block_log_def)
  next
    case (Suc k')
    then have "Correction (species ! j) (Suc i + k') (raw_shoots (drows ! k') j)
                 (raw_browsed (drows ! k') j) \<in> set (rows_log species n (Suc i) drows)"
      using Cons.IH [of k' "Suc i"] Cons.prems by simp
    then show ?thesis using Suc by simp
  qed
qed

lemma rows_log_sound:
  assumes "Correction s r a b \<in> set (rows_log species n i drows)"
  shows "a < b"
  using assms
  by (induction drows arbitrary: i) (auto simp: block_log_def split: if_splits)

text \<open>The cells and the log of a run that returned.\<close>

lemma returned_run_values:
  assumes "aggregate_data data lg = (Inr agg, lg')"
    and "rectangular data"
    and "k < length (points data)"
    and "j < length (names_row data) div 9"
  shows "agg_rows agg ! k ! (j * 3 + 1) = raw_browsed (points data ! k) j
       \<and> agg_rows agg ! k ! (j * 3 + 2) = points data ! k ! (j * 9 + 8)
       \<and> j * 9 + 8 < length (points data ! k)
       \<and> agg_rows agg ! k ! (j * 3) =
           (if raw_shoots (points data ! k) j < raw_browsed (points data ! k) j
            then raw_shoots (points data ! k) j + raw_browsed (points data ! k) j
            else raw_shoots (points data ! k) j)
       \<and> (\<exists>new. lg' = lg @ new
            \<and> (Correction (unique_first (names_row data) ! j) (Suc k)
                    (raw_shoots (points data ! k) j) (raw_browsed (points data ! k) j)
                  \<in> set new)
               = (raw_shoots (points data ! k) j < raw_browsed (points data ! k) j))"
proof -
  let ?sp = "unique_first (names_row data)"
  let ?n = "length (names_row data) div 9"
  let ?r = "points data ! k"
  let ?new = "rows_log ?sp ?n 1 (points data)"
  note cells = aggregate_data_cells [OF assms(1) assms(3) assms(4)]
  have "length ?r = length (names_row data)"
    using assms(2,3) by (simp add: rectangular_def list_all_length)
  then have inrange: "j * 9 + 8 < length ?r" using assms(4) by simp
  have lg: "lg' = lg @ ?new" using aggregate_data_Inr [OF assms(1)] by simp
  have "(Correction (?sp ! j) (Suc k) (raw_shoots ?r j) (raw_browsed ?r j) \<in> set ?new)
        = (raw_shoots ?r j < raw_browsed ?r j)"
    using rows_log_mem [OF assms(3) assms(4), of species 1 for species]
      rows_log_sound [of "?sp ! j" "Suc k" "raw_shoots ?r j" "raw_browsed ?r j" ?sp ?n 1
        "points data"]
    by auto
  then have "\<exists>new. lg' = lg @ new
            \<and> (Correction (?sp ! j) (Suc k) (raw_shoots ?r j) (raw_browsed ?r j) \<in> set new)
               = (raw_shoots ?r j < raw_browsed ?r j)"
    using lg by blast
  then show ?thesis
    using cells inrange by (simp add: corrected_shoots_def raw_old_def)
qed

lemma header_loop_returns:
  assumes "index + length sps \<le> n" and "length hdr = n * 3"
  shows "\<exists>h. header_loop index sps hdr = Inr h \<and> length h = n * 3"
  using assms
proof (induction sps arbitrary: index hdr)
  case Nil
  then show ?case by simp
next
  case (Cons sp sps)
  then have "index * 3 + 2 < length hdr" by simp
  then show ?case using Cons.IH [of "Suc index"] Cons.prems by (simp add: Let_def)
qed

lemma aggregate_block_returns:
  assumes "j < length species"
  shows "\<exists>arow' lg'. aggregate_block species drow i j arow lg = (Inr arow', lg')"
  using assms by (simp add: aggregate_block_def Let_def)

lemma aggregate_blocks_returns:
  assumes "\<forall>j \<in> set js. j < length species"
  shows "\<exists>arow' lg'. aggregate_blocks species drow i js arow lg = (Inr arow', lg')"
  using assms
proof (induction js arbitrary: arow lg)
  case Nil
  then show ?case by simp
next
  case (Cons j js)
  then have "j < length species" by simp
  then obtain arow1 lg1 where "aggregate_block species drow i j arow lg = (Inr arow1, lg1)"
    using aggregate_block_returns by blast
  then show ?case using Cons.IH [of arow1 lg1] Cons.prems by simp
qed

lemma aggregate_rows_returns:
  assumes "n \<le> length species"
  shows "\<exists>arows lg'. aggregate_rows species n i drows lg = (Inr arows, lg')"
proof (induction drows arbitrary: i lg)
  case Nil
  then show ?case by simp
next
  case (Cons drow drows)
  obtain arow lg1 where
    "aggregate_blocks species drow i [0..<n] (replicate (n * 3) 0) lg = (Inr arow, lg1)"
    using aggregate_blocks_returns [of "[0..<n]" species drow i "replicate (n * 3) 0" lg] assms
    by auto
  moreover obtain arows lg2 where "aggregate_rows species n (Suc i) drows lg1 = (Inr arows, lg2)"
    using Cons.IH by blast
  ultimately show ?case by simp
qed

lemma aggregate_data_returns:
  assumes "length (unique_first (names_row data)) = length (names_row data) div 9"
  shows "\<exists>agg lg'. aggregate_data data lg = (Inr agg, lg')"
proof -
  let ?sp = "unique_first (names_row data)"
  let ?n = "length (names_row data) div 9"
  obtain h where "header_loop 0 ?sp (replicate (?n * 3) Unset) = Inr h"
    using header_loop_returns [of 0 ?sp ?n "replicate (?n * 3) Unset"] assms by auto
  moreover obtain arows lg' where "aggregate_rows ?sp ?n 1 (points data) lg = (Inr arows, lg')"
    using aggregate_rows_returns [of ?n ?sp 1 "points data" lg] assms by auto
  ultimately show ?thesis by (simp add: aggregate_data_def Let_def)
qed

lemma unique_first_set: "set (unique_first xs) = set xs"
  by (induction xs) auto

lemma unique_first_replicate_append:
  "unique_first (replicate (Suc n) x @ ys) = x # filter (\<lambda>y. y \<noteq> x) (unique_first ys)"
  by (induction n) simp_all

lemma unique_first_broadcast:
  assumes "distinct sps"
  shows "unique_first (concat (map (replicate 9) sps)) = sps"
  using assms
proof (induction sps)
  case Nil
  then show ?case by simp
next
  case (Cons sp sps)
  let ?rest = "concat (map (replicate 9) sps)"
  have "set ?rest \<subseteq> set sps" by auto
  then have "sp \<notin> set (unique_first ?rest)"
    using Cons.prems by (auto simp: unique_first_set)
  then have keep: "filter (\<lambda>y. y \<noteq> sp) (unique_first ?rest) = unique_first ?rest"
    by (auto simp: filter_id_conv)
  have "unique_first (replicate (Suc 8) sp @ ?rest)
          = sp # filter (\<lambda>y. y \<noteq> sp) (unique_first ?rest)"
    by (rule unique_first_replicate_append)
  then have "unique_first (concat (map (replicate 9) (sp # sps))) = sp # unique_first ?rest"
    using keep by (simp add: eval_nat_numeral)
  then show ?case using Cons.IH Cons.prems by simp
qed

text \<open>A header that broadcasts distinct names over blocks of nine columns matches its blocks.\<close>

lemma broadcast_names_match_blocks:
  assumes "names_row data = concat (map (replicate 9) sps)" and "distinct sps"
  shows "names_match_blocks data"
proof -
  have "length (concat (map (replicate 9) sps)) = 9 * length sps"
    by (induction sps) simp_all
  then show ?thesis
    using assms unique_first_broadcast [OF assms(2)] by (simp add: names_match_blocks_def)
qed

text \<open>
  Claim C2. For every rectangular raw sheet whose header names one distinct species per
  block, the aggregator returns a matrix with one row per sampling point and appends to
  the log; for every data row \<open>k\<close> and species block \<open>j\<close>: freshly_browsed is the sum
  of sub-columns 5-8, old_browsed is the 9th sub-column (which is in range), all_shoots is
  the sum of sub-columns 1-4, or that sum plus freshly_browsed when the sum is strictly
  smaller; and the lines appended hold one with the species, the output row index
  \<open>k + 1\<close> and both sums exactly in that case.
\<close>

theorem aggregate_data_values:
  assumes "names_match_blocks data"
    and "rectangular data"
    and "k < length (points data)"
    and "j < length (names_row data) div 9"
  shows "\<exists>agg new. aggregate_data data lg = (Inr agg, lg @ new)
       \<and> length (agg_rows agg) = length (points data)
       \<and> agg_rows agg ! k ! (j * 3 + 1) = raw_browsed (points data ! k) j
       \<and> agg_rows agg ! k ! (j * 3 + 2) = points data ! k ! (j * 9 + 8)
       \<and> j * 9 + 8 < length (points data ! k)
       \<and> agg_rows agg ! k ! (j * 3) =
           (if raw_shoots (points data ! k) j < raw_browsed (points data ! k) j
            then raw_shoots (points data ! k) j + raw_browsed (points data ! k) j
            else raw_shoots (points data ! k) j)
       \<and> (Correction (unique_first (names_row data) ! j) (Suc k)
               (raw_shoots (points data ! k) j) (raw_browsed (points data ! k) j)
             \<in> set new)
          = (raw_shoots (points data ! k) j < raw_browsed (points data ! k) j)"
proof -
  from aggregate_data_returns [of data lg] assms(1) obtain agg lg' where
    run: "aggregate_data data lg = (Inr agg, lg')"
    by (auto simp: names_match_blocks_def)
  have len: "length (agg_rows agg) = length (points data)"
    using aggregate_data_Inr [OF run] by simp
  from returned_run_values [OF run assms(2,3,4)] obtain new where
    "lg' = lg @ new"
    and "agg_rows agg ! k ! (j * 3 + 1) = raw_browsed (points data ! k) j"
    and "agg_rows agg ! k ! (j * 3 + 2) = points data ! k ! (j * 9 + 8)"
    and "j * 9 + 8 < length (points data ! k)"
    and "agg_rows agg ! k ! (j * 3) =
           (if raw_shoots (points data ! k) j < raw_browsed (points data ! k) j
            then raw_shoots (points data ! k) j + raw_browsed (points data ! k) j
            else raw_shoots (points data ! k) j)"
    and "(Correction (unique_first (names_row data) ! j) (Suc k)
               (raw_shoots (points data ! k) j) (raw_browsed (points data ! k) j)
             \<in> set new)
          = (raw_shoots (points data ! k) j < raw_browsed (points data ! k) j)"
    by blast
  then show ?thesis using run len by blast
qed

text \<open>
  The scenario of the specification: the sheet matches its blocks and is rectangular, so
  the run returns, and the sub-columns \<open>[2,0,0,0, 3,0,0,0, 1]\<close> give all_shoots 5,
  freshly_browsed 3 and old_browsed 1, with the correction logged.
\<close>

theorem aggregate_data_values_witness:
  "names_match_blocks example_sheet
   \<and> rectangular example_sheet
   \<and> aggregate_data example_sheet [] = (Inr example_aggregated, [Correction ''Fagyal'' 1 2 3])
   \<and> points example_sheet ! 0 = [2, 0, 0, 0, 3, 0, 0, 0, 1]
   \<and> agg_rows example_aggregated ! 0 ! (0 * 3) = 5
   \<and> agg_rows example_aggregated ! 0 ! (0 * 3 + 1) = 3
   \<and> agg_rows example_aggregated ! 0 ! (0 * 3 + 2) = 1
   \<and> Correction ''Fagyal'' 1 2 3 \<in> set [Correction ''Fagyal'' 1 2 3]"
proof -
  have names: "names_match_blocks example_sheet" by code_simp
  have rect: "rectangular example_sheet"
    by (simp add: rectangular_def example_sheet_def)
  have k: "0 < length (points example_sheet)"
    by (simp add: example_sheet_def)
  have j: "0 < length (names_row example_sheet) div 9"
    by (simp add: example_sheet_def)
  have row: "points example_sheet ! 0 = [2, 0, 0, 0, 3, 0, 0, 0, 1]"
    by (simp add: example_sheet_def)
  have vals: "raw_shoots [2, 0, 0, 0, 3, 0, 0, 0, 1] 0 = 2"
    "raw_browsed [2, 0, 0, 0, 3, 0, 0, 0, 1] 0 = 3"
    by (simp_all add: raw_shoots_def raw_browsed_def)
  from aggregate_data_values [OF names rect k j, of "[]"] obtain agg new where
    run: "aggregate_data example_sheet [] = (Inr agg, [] @ new)"
    and fresh: "agg_rows agg ! 0 ! (0 * 3 + 1) = raw_browsed (points example_sheet ! 0) 0"
    and old: "agg_rows agg ! 0 ! (0 * 3 + 2) = points example_sheet ! 0 ! (0 * 9 + 8)"
    and shoots: "agg_rows agg ! 0 ! (0 * 3) =
           (if raw_shoots (points example_sheet ! 0) 0 < raw_browsed (points example_sheet ! 0) 0
            then raw_shoots (points example_sheet ! 0) 0 + raw_browsed (points example_sheet ! 0) 0
            else raw_shoots (points example_sheet ! 0) 0)"
    by blast
  have agg: "agg = example_aggregated" and new: "new = [Correction ''Fagyal'' 1 2 3]"
    using run example_run by simp_all
  show ?thesis
    using names rect example_run row fresh old shoots vals unfolding agg by simp
qed

text \<open>
  Why the invariant is stated for counts: on a cell below zero the correction adds the
  browsed sum to a negative sum, and the result can stay below the browsed sum.
\<close>

lemma aggregate_data_negative_cell:
  "aggregate_data \<lparr>names_row = replicate 9 ''Fagyal'',
                    points = [[- 1, 0, 0, 0, 0, 0, 0, 0, 0]]\<rparr> []
     = (Inr \<lparr>agg_header = [Text ''Fagyal all shoots'', Text ''Fagyal freshly browsed'',
                           Text ''Fagyal old browsed''],
             agg_rows = [[- 1, 0, 0]]\<rparr>,
        [Correction ''Fagyal'' 1 (- 1) 0])"
  by code_simp

section \<open>Reading the forests: a file that fails\<close>

text \<open>The array \<open>aggregate_data\<close> returns does not depend on the log it appends to.\<close>

lemma aggregate_block_fst:
  "fst (aggregate_block species drow i j arow lg) = fst (aggregate_block species drow i j arow lg2)"
  by (simp add: aggregate_block_def Let_def)

lemma aggregate_blocks_fst:
  "fst (aggregate_blocks species drow i js arow lg)
     = fst (aggregate_blocks species drow i js arow lg2)"
proof (induction js arbitrary: arow lg lg2)
  case Nil
  then show ?case by simp
next
  case (Cons j js)
  obtain r l where a: "aggregate_block species drow i j arow lg = (r, l)"
    by (cases "aggregate_block species drow i j arow lg")
  obtain l2 where b: "aggregate_block species drow i j arow lg2 = (r, l2)"
    using aggregate_block_fst [of species drow i j arow lg lg2] a
    by (metis fst_conv prod.collapse)
  show ?case using a b Cons.IH by (cases r) simp_all
qed

lemma aggregate_rows_fst:
  "fst (aggregate_rows species n i drows lg) = fst (aggregate_rows species n i drows lg2)"
proof (induction drows arbitrary: i lg lg2)
  case Nil
  then show ?case by simp
next
  case (Cons drow drows)
  let ?start = "replicate (n * 3) (0::int)"
  obtain r l where a: "aggregate_blocks species drow i [0..<n] ?start lg = (r, l)"
    by (cases "aggregate_blocks species drow i [0..<n] ?start lg")
  obtain l2 where b: "aggregate_blocks species drow i [0..<n] ?start lg2 = (r, l2)"
    using aggregate_blocks_fst [of species drow i "[0..<n]" ?start lg lg2] a
    by (metis fst_conv prod.collapse)
  show ?case
  proof (cases r)
    case (Inl e)
    then show ?thesis using a b by simp
  next
    case (Inr arow)
    obtain q m where c: "aggregate_rows species n (Suc i) drows l = (q, m)"
      by (cases "aggregate_rows species n (Suc i) drows l")
    obtain m2 where d: "aggregate_rows species n (Suc i) drows l2 = (q, m2)"
      using Cons.IH [of "Suc i" l l2] c by (metis fst_conv prod.collapse)
    show ?thesis using a b Inr c d by (cases q) simp_all
  qed
qed

lemma aggregate_data_fst:
  "fst (aggregate_data data lg) = fst (aggregate_data data lg2)"
proof -
  let ?sp = "unique_first (names_row data)"
  let ?n = "length (names_row data) div 9"
  obtain q m where c: "aggregate_rows ?sp ?n 1 (points data) lg = (q, m)"
    by (cases "aggregate_rows ?sp ?n 1 (points data) lg")
  obtain m2 where d: "aggregate_rows ?sp ?n 1 (points data) lg2 = (q, m2)"
    using aggregate_rows_fst [of ?sp ?n 1 "points data" lg lg2] c
    by (metis fst_conv prod.collapse)
  show ?thesis using c d
    by (cases q) (simp_all add: aggregate_data_def Let_def split: sum.splits)
qed

text \<open>
  What the \<open>try\<close> achieves: the paths collected from a folder do not depend on the log,
  and a file whose reading or aggregation raises adds a warning with its name and no path.
\<close>

lemma read_files_fst:
  "fst (read_files files paths_data lg warns) = fst (read_files files paths_data lg2 warns2)"
proof (induction files arbitrary: paths_data lg warns lg2 warns2)
  case Nil
  then show ?case by simp
next
  case (Cons entry files)
  obtain file_name content where entry: "entry = (file_name, content)" by (cases entry)
  show ?case
  proof (cases "endswith file_name ''xlsx''")
    case False
    then show ?thesis using entry Cons.IH by simp
  next
    case True
    show ?thesis
    proof (cases content)
      case (Inl e)
      then show ?thesis using entry True Cons.IH by simp
    next
      case (Inr data)
      obtain r l where a: "aggregate_data data (lg @ [FileMark file_name]) = (r, l)"
        by (cases "aggregate_data data (lg @ [FileMark file_name])")
      obtain l2 where b: "aggregate_data data (lg2 @ [FileMark file_name]) = (r, l2)"
        using aggregate_data_fst [of data "lg @ [FileMark file_name]" "lg2 @ [FileMark file_name]"]
          a by (metis fst_conv prod.collapse)
      show ?thesis using entry True Inr a b Cons.IH by (cases r) simp_all
    qed
  qed
qed

lemma read_files_failed_file_skipped:
  assumes "content = Inl e \<or> (\<exists>data e'. content = Inr data \<and> fst (aggregate_data data []) = Inl e')"
  shows "fst (read_files ((file_name, content) # files) paths_data lg warns)
           = fst (read_files files paths_data lg warns)
       \<and> (endswith file_name ''xlsx'' \<longrightarrow>
            file_name \<in> set (snd (snd (read_files [(file_name, content)] paths_data lg warns))))"
proof (cases "endswith file_name ''xlsx''")
  case False
  then show ?thesis by simp
next
  case True
  from assms show ?thesis
  proof
    assume "content = Inl e"
    then show ?thesis using True read_files_fst by simp
  next
    assume "\<exists>data e'. content = Inr data \<and> fst (aggregate_data data []) = Inl e'"
    then obtain data e' where c: "content = Inr data" and f: "fst (aggregate_data data []) = Inl e'"
      by blast
    obtain r l where a: "aggregate_data data (lg @ [FileMark file_name]) = (r, l)"
      by (cases "aggregate_data data (lg @ [FileMark file_name])")
    have "r = Inl e'"
      using aggregate_data_fst [of data "lg @ [FileMark file_name]" "[]"] a f by simp
    then show ?thesis using True c a read_files_fst by simp
  qed
qed

text \<open>
  Claim C7 on the code. The warning names the file that failed, but the folder then has no
  path left: \<open>combine_forest([])\<close> raises IndexError outside the \<open>try\<close>, the cell
  ends there and the second forest is never read. Without the failing folder the same
  cell returns the second forest.
\<close>

theorem reading_cell_failed_file_aborts:
  "reading_cell failing_corpus
     = (Inl IndexError, [FileMark ''vonal 1.xlsx''], [''vonal 1.xlsx''])
   \<and> reading_cell (tl failing_corpus)
     = (Inr [(''Havas'', example_aggregated)],
        [FileMark ''vonal 2.xlsx'', Correction ''Fagyal'' 1 2 3], [])"
  by code_simp


section \<open>Species distribution: coverage and supply share\<close>

lemma count_cell_Inr:
  assumes "j * 3 < length row"
  shows "count_cell row j (cover, shoots, tot) =
         Inr (if row ! (j * 3) \<noteq> 0 then cover[j := cover ! j + 1] else cover,
              if row ! (j * 3) \<noteq> 0 then shoots[j := shoots ! j + of_int (row ! (j * 3))]
              else shoots,
              tot + row ! (j * 3))"
  using assms by (simp add: count_cell_def Let_def)

lemma count_row_Inr:
  assumes "\<forall>j \<in> set js. j * 3 < length row" and "distinct js"
    and "length cover = n" and "length shoots = n"
  shows "\<exists>cover' shoots'.
           count_row row js (cover, shoots, tot) =
             Inr (cover', shoots', tot + sum_list (map (\<lambda>j. row ! (j * 3)) js))
         \<and> length cover' = n \<and> length shoots' = n
         \<and> (\<forall>m < n. cover' ! m =
               cover ! m + (if m \<in> set js \<and> row ! (m * 3) \<noteq> 0 then 1 else 0))
         \<and> (\<forall>m < n. shoots' ! m =
               shoots ! m + (if m \<in> set js then of_int (row ! (m * 3)) else 0))"
  using assms
proof (induction js arbitrary: cover shoots tot)
  case Nil
  then show ?case by simp
next
  case (Cons j js)
  let ?c1 = "if row ! (j * 3) \<noteq> 0 then cover[j := cover ! j + 1] else cover"
  let ?s1 = "if row ! (j * 3) \<noteq> 0 then shoots[j := shoots ! j + of_int (row ! (j * 3))]
              else shoots"
  have step: "count_cell row j (cover, shoots, tot) = Inr (?c1, ?s1, tot + row ! (j * 3))"
    using Cons.prems(1) by (simp add: count_cell_Inr)
  have len: "length ?c1 = n" "length ?s1 = n" using Cons.prems by simp_all
  have js: "\<forall>j \<in> set js. j * 3 < length row" "distinct js" "j \<notin> set js"
    using Cons.prems by simp_all
  from Cons.IH [OF js(1) js(2) len, of "tot + row ! (j * 3)"] obtain cover' shoots' where
    run: "count_row row js (?c1, ?s1, tot + row ! (j * 3)) =
            Inr (cover', shoots', tot + row ! (j * 3) + sum_list (map (\<lambda>j. row ! (j * 3)) js))"
    and len': "length cover' = n" "length shoots' = n"
    and cov: "\<forall>m < n. cover' ! m =
               ?c1 ! m + (if m \<in> set js \<and> row ! (m * 3) \<noteq> 0 then 1 else 0)"
    and sup: "\<forall>m < n. shoots' ! m =
               ?s1 ! m + (if m \<in> set js then of_int (row ! (m * 3)) else 0)"
    by blast
  have c1: "?c1 ! m = cover ! m + (if m = j \<and> row ! (m * 3) \<noteq> 0 then 1 else 0)"
    if "m < n" for m using that Cons.prems(3) by (auto simp: nth_list_update)
  have s1: "?s1 ! m = shoots ! m + (if m = j then of_int (row ! (m * 3)) else 0)"
    if "m < n" for m using that Cons.prems(4) by (auto simp: nth_list_update)
  have "count_row row (j # js) (cover, shoots, tot) =
          Inr (cover', shoots', tot + sum_list (map (\<lambda>j. row ! (j * 3)) (j # js)))"
    using step run by (simp add: add.assoc)
  moreover have "\<forall>m < n. cover' ! m =
               cover ! m + (if m \<in> set (j # js) \<and> row ! (m * 3) \<noteq> 0 then 1 else 0)"
    using cov c1 js(3) by auto
  moreover have "\<forall>m < n. shoots' ! m =
               shoots ! m + (if m \<in> set (j # js) then of_int (row ! (m * 3)) else 0)"
    using sup s1 js(3) by auto
  ultimately show ?case using len' by blast
qed

lemma count_rows_Inr:
  assumes "list_all (\<lambda>r. n * 3 \<le> length r) rows"
    and "length cover = n" and "length shoots = n"
  shows "\<exists>cover' shoots'.
           count_rows rows n (cover, shoots, tot) =
             Inr (cover', shoots',
                  tot + sum_list (map (\<lambda>row. sum_list (map (\<lambda>j. row ! (j * 3)) [0..<n])) rows))
         \<and> length cover' = n \<and> length shoots' = n
         \<and> (\<forall>m < n. cover' ! m =
               cover ! m + of_nat (length (filter (\<lambda>row. row ! (m * 3) \<noteq> 0) rows)))
         \<and> (\<forall>m < n. shoots' ! m =
               shoots ! m + of_int (sum_list (map (\<lambda>row. row ! (m * 3)) rows)))"
  using assms
proof (induction rows arbitrary: cover shoots tot)
  case Nil
  then show ?case by simp
next
  case (Cons row rows)
  have inrange: "\<forall>j \<in> set [0..<n]. j * 3 < length row"
    using Cons.prems(1) by auto
  from count_row_Inr [OF inrange _ Cons.prems(2,3), of tot] obtain c1 s1 where
    row: "count_row row [0..<n] (cover, shoots, tot) =
            Inr (c1, s1, tot + sum_list (map (\<lambda>j. row ! (j * 3)) [0..<n]))"
    and len1: "length c1 = n" "length s1 = n"
    and cov1: "\<forall>m < n. c1 ! m = cover ! m + (if row ! (m * 3) \<noteq> 0 then 1 else 0)"
    and sup1: "\<forall>m < n. s1 ! m = shoots ! m + of_int (row ! (m * 3))"
    by auto
  have rest: "list_all (\<lambda>r. n * 3 \<le> length r) rows" using Cons.prems(1) by simp
  from Cons.IH [OF rest len1, of "tot + sum_list (map (\<lambda>j. row ! (j * 3)) [0..<n])"]
  obtain cover' shoots' where
    run: "count_rows rows n (c1, s1, tot + sum_list (map (\<lambda>j. row ! (j * 3)) [0..<n])) =
            Inr (cover', shoots',
                 tot + sum_list (map (\<lambda>j. row ! (j * 3)) [0..<n])
                   + sum_list (map (\<lambda>row. sum_list (map (\<lambda>j. row ! (j * 3)) [0..<n])) rows))"
    and len': "length cover' = n" "length shoots' = n"
    and cov: "\<forall>m < n. cover' ! m =
               c1 ! m + of_nat (length (filter (\<lambda>row. row ! (m * 3) \<noteq> 0) rows))"
    and sup: "\<forall>m < n. shoots' ! m =
               s1 ! m + of_int (sum_list (map (\<lambda>row. row ! (m * 3)) rows))"
    by blast
  have "count_rows (row # rows) n (cover, shoots, tot) =
          Inr (cover', shoots',
               tot + sum_list (map (\<lambda>row. sum_list (map (\<lambda>j. row ! (j * 3)) [0..<n]))
                  (row # rows)))"
    using row run by (simp add: add.assoc)
  moreover have "\<forall>m < n. cover' ! m =
               cover ! m + of_nat (length (filter (\<lambda>row. row ! (m * 3) \<noteq> 0) (row # rows)))"
    using cov cov1 by auto
  moreover have "\<forall>m < n. shoots' ! m =
               shoots ! m + of_int (sum_list (map (\<lambda>row. row ! (m * 3)) (row # rows)))"
    using sup sup1 by auto
  ultimately show ?case using len' by blast
qed

lemma unique_first_nonempty: "xs \<noteq> [] \<Longrightarrow> unique_first xs \<noteq> []"
  by (cases xs) simp_all

lemma count_rows_zero_start:
  assumes "list_all (\<lambda>r. n * 3 \<le> length r) rows"
  shows "count_rows rows n (replicate n 0, replicate n 0, 0) =
           Inr (map (\<lambda>j. of_nat (length (filter (\<lambda>row. row ! (j * 3) \<noteq> 0) rows))) [0..<n],
                map (\<lambda>j. of_int (sum_list (map (\<lambda>row. row ! (j * 3)) rows))) [0..<n],
                sum_list (map (\<lambda>row. sum_list (map (\<lambda>j. row ! (j * 3)) [0..<n])) rows))"
proof -
  from count_rows_Inr [OF assms, of "replicate n 0" "replicate n 0" 0]
  obtain cover' shoots' where
    run: "count_rows rows n (replicate n 0, replicate n 0, 0) =
            Inr (cover', shoots',
                 sum_list (map (\<lambda>row. sum_list (map (\<lambda>j. row ! (j * 3)) [0..<n])) rows))"
    and len: "length cover' = n" "length shoots' = n"
    and cov: "\<forall>m < n. cover' ! m = of_nat (length (filter (\<lambda>row. row ! (m * 3) \<noteq> 0) rows))"
    and sho: "\<forall>m < n. shoots' ! m = of_int (sum_list (map (\<lambda>row. row ! (m * 3)) rows))"
    by auto
  have "cover' = map (\<lambda>j. of_nat (length (filter (\<lambda>row. row ! (j * 3) \<noteq> 0) rows))) [0..<n]"
    using len cov by (intro nth_equalityI) simp_all
  moreover have "shoots' = map (\<lambda>j. of_int (sum_list (map (\<lambda>row. row ! (j * 3)) rows))) [0..<n]"
    using len sho by (intro nth_equalityI) simp_all
  ultimately show ?thesis using run by simp
qed

text \<open>
  Claim C3, as the code has it. The division by the forest total is not guarded: for a
  forest with at least one species whose header fits its columns, a total of 0 offered
  shoots makes the cell raise ZeroDivisionError, and no supply share (0 or other) is
  assigned; with a nonzero total the supply share of a species is its offered shoots
  divided by the total, and its coverage the share of points where it offers shoots.
\<close>

theorem distributions_supply_share:
  assumes "forest_shape data" and "fm_header data \<noteq> []"
  shows "distributions data =
     (if forest_shoots data = 0 then Inl ZeroDivisionError
      else Inr \<lparr>dist_species = unique_first (map species_of_header (fm_header data)),
                coverage = map (\<lambda>j. of_nat (species_points data j)
                                      / of_nat (length (fm_rows data)))
                  [0..<length (unique_first (map species_of_header (fm_header data)))],
                supply_perc = map (\<lambda>j. of_int (species_shoots data j)
                                      / of_int (forest_shoots data))
                  [0..<length (unique_first (map species_of_header (fm_header data)))]\<rparr>)"
proof -
  let ?sp = "unique_first (map species_of_header (fm_header data))"
  let ?n = "length ?sp"
  let ?rows = "fm_rows data"
  have n: "0 < ?n" using assms(2) unique_first_nonempty [of "map species_of_header (fm_header data)"]
    by simp
  have wide: "list_all (\<lambda>r. ?n * 3 \<le> length r) ?rows"
    using assms(1) by (auto simp: forest_shape_def list_all_iff)
  note run = count_rows_zero_start [OF wide]
  have ne: "map f [0..<?n] \<noteq> []" for f :: "nat \<Rightarrow> rat" using n by simp
  show ?thesis
  proof (cases "?rows = []")
    case True
    then have "forest_shoots data = 0" by (simp add: forest_shoots_def)
    then show ?thesis using run True ne
      by (simp add: distributions_def Let_def np_divide_def)
  next
    case False
    then have "(of_nat (length ?rows) :: rat) \<noteq> 0" by simp
    then show ?thesis using run ne
      by (simp add: distributions_def Let_def np_divide_def forest_shoots_def
            species_shoots_def species_points_def comp_def)
  qed
qed

text \<open>
  Claim C3 as stated fails: a forest with no shoots gets no supply share of 0, the run
  raises.
\<close>

theorem distributions_zero_total_counterexample:
  "forest_shoots empty_forest = 0 \<and> distributions empty_forest = Inl ZeroDivisionError"
  by code_simp

text \<open>The shares of a forest with 8 shoots, 1 of the first species and 7 of the second.\<close>

theorem distributions_supply_share_witness:
  "forest_shape small_forest \<and> fm_header small_forest \<noteq> []
   \<and> forest_shoots small_forest = 8
   \<and> distributions small_forest =
       Inr \<lparr>dist_species = [''Fagyal'', ''Bodza''], coverage = [1 / 2, 1],
            supply_perc = [1 / 8, 7 / 8]\<rparr>"
proof -
  have shape: "forest_shape small_forest" by code_simp
  have hdr: "fm_header small_forest \<noteq> []" by (simp add: small_forest_def)
  have tot: "forest_shoots small_forest = 8" by code_simp
  have res: "distributions small_forest =
       Inr \<lparr>dist_species = [''Fagyal'', ''Bodza''], coverage = [1 / 2, 1],
            supply_perc = [1 / 8, 7 / 8]\<rparr>"
    by code_simp
  show ?thesis
    using distributions_supply_share [OF shape hdr] shape hdr tot res by simp
qed

section \<open>Merging the forests: shape and zero filling\<close>

lemma np_where_first_SomeD:
  "np_where_first x ys = Some c \<Longrightarrow> c < length ys \<and> ys ! c = x"
  by (induction ys arbitrary: c) (auto split: if_splits)

lemma np_where_first_found:
  "x \<in> set ys \<Longrightarrow> \<exists>c. np_where_first x ys = Some c"
  by (induction ys) auto

lemma copy_cols_Inr:
  assumes "\<forall>j \<in> set js. fh ! j \<in> set dh" and "r < length rows"
  shows "\<exists>row'. copy_cols dh fh frow js (Suc r) rows = Inr (rows[r := row'])
           \<and> length row' = length (rows ! r)
           \<and> (\<forall>c < length dh. dh ! c \<notin> (\<lambda>j. fh ! j) ` set js \<longrightarrow> row' ! c = rows ! r ! c)"
  using assms
proof (induction js arbitrary: rows)
  case Nil
  then show ?case by (intro exI [of _ "rows ! r"]) simp
next
  case (Cons j js)
  from Cons.prems(1) obtain col where
    col: "np_where_first (fh ! j) dh = Some col"
    using np_where_first_found [of "fh ! j" dh] by auto
  then have col_hdr: "dh ! col = fh ! j" using np_where_first_SomeD by fastforce
  let ?rows1 = "rows[r := (rows ! r)[col := frow ! j]]"
  have r1: "r < length ?rows1" using Cons.prems(2) by simp
  have js: "\<forall>j \<in> set js. fh ! j \<in> set dh" using Cons.prems(1) by simp
  from Cons.IH [OF js r1] obtain row' where
    run: "copy_cols dh fh frow js (Suc r) ?rows1 = Inr (?rows1[r := row'])" and
    len: "length row' = length (?rows1 ! r)" and
    keep: "\<forall>c < length dh. dh ! c \<notin> (\<lambda>j. fh ! j) ` set js \<longrightarrow> row' ! c = ?rows1 ! r ! c"
    by blast
  have "copy_cols dh fh frow (j # js) (Suc r) rows = Inr (rows[r := row'])"
    using col run Cons.prems(2) by simp
  moreover have "length row' = length (rows ! r)"
    using len Cons.prems(2) by simp
  moreover have "\<forall>c < length dh. dh ! c \<notin> (\<lambda>j. fh ! j) ` set (j # js)
                   \<longrightarrow> row' ! c = rows ! r ! c"
  proof (intro allI impI)
    fix c assume c: "c < length dh" and out: "dh ! c \<notin> (\<lambda>j. fh ! j) ` set (j # js)"
    then have "c \<noteq> col" using col_hdr by auto
    moreover have "row' ! c = ?rows1 ! r ! c" using keep c out by simp
    ultimately show "row' ! c = rows ! r ! c" using Cons.prems(2) by simp
  qed
  ultimately show ?case by blast
qed

lemma copy_rows_Inr:
  assumes "set fh \<subseteq> set dh" and "r + length frows \<le> length rows"
  shows "\<exists>rows'. copy_rows dh fh frows (Suc r) rows = Inr (rows', Suc (r + length frows))
           \<and> length rows' = length rows
           \<and> (\<forall>k < length rows. k < r \<or> r + length frows \<le> k \<longrightarrow> rows' ! k = rows ! k)
           \<and> (\<forall>i < length frows. length (rows' ! (r + i)) = length (rows ! (r + i))
                 \<and> (\<forall>c < length dh. dh ! c \<notin> set fh \<longrightarrow> rows' ! (r + i) ! c = rows ! (r + i) ! c))"
  using assms(2)
proof (induction frows arbitrary: r rows)
  case Nil
  then show ?case by simp
next
  case (Cons frow frows)
  have r: "r < length rows" using Cons.prems by simp
  have found: "\<forall>j \<in> set [0..<length fh]. fh ! j \<in> set dh"
    using assms(1) by (auto simp: subset_iff)
  have img: "(\<lambda>j. fh ! j) ` set [0..<length fh] = set fh"
    by (auto simp: in_set_conv_nth)
  from copy_cols_Inr [OF found r, of frow] obtain row' where
    run1: "copy_cols dh fh frow [0..<length fh] (Suc r) rows = Inr (rows[r := row'])" and
    len1: "length row' = length (rows ! r)" and
    keep1: "\<forall>c < length dh. dh ! c \<notin> set fh \<longrightarrow> row' ! c = rows ! r ! c"
    using img by auto
  let ?rows1 = "rows[r := row']"
  have room: "Suc r + length frows \<le> length ?rows1" using Cons.prems by simp
  from Cons.IH [OF room] obtain rows' where
    run: "copy_rows dh fh frows (Suc (Suc r)) ?rows1 = Inr (rows', Suc (Suc r + length frows))" and
    len: "length rows' = length ?rows1" and
    out: "\<forall>k < length ?rows1. k < Suc r \<or> Suc r + length frows \<le> k \<longrightarrow> rows' ! k = ?rows1 ! k" and
    ins: "\<forall>i < length frows. length (rows' ! (Suc r + i)) = length (?rows1 ! (Suc r + i))
            \<and> (\<forall>c < length dh. dh ! c \<notin> set fh
                  \<longrightarrow> rows' ! (Suc r + i) ! c = ?rows1 ! (Suc r + i) ! c)"
    by blast
  have "copy_rows dh fh (frow # frows) (Suc r) rows
          = Inr (rows', Suc (r + length (frow # frows)))"
    using run1 run by simp
  moreover have "length rows' = length rows" using len by simp
  moreover have "\<forall>k < length rows. k < r \<or> r + length (frow # frows) \<le> k
                   \<longrightarrow> rows' ! k = rows ! k"
    using out by auto
  moreover have "\<forall>i < length (frow # frows).
        length (rows' ! (r + i)) = length (rows ! (r + i))
        \<and> (\<forall>c < length dh. dh ! c \<notin> set fh \<longrightarrow> rows' ! (r + i) ! c = rows ! (r + i) ! c)"
  proof (intro allI impI)
    fix i assume i: "i < length (frow # frows)"
    show "length (rows' ! (r + i)) = length (rows ! (r + i))
        \<and> (\<forall>c < length dh. dh ! c \<notin> set fh \<longrightarrow> rows' ! (r + i) ! c = rows ! (r + i) ! c)"
    proof (cases i)
      case 0
      have "rows' ! r = ?rows1 ! r" using out r by simp
      then have "rows' ! r = row'" using r by simp
      then show ?thesis using 0 len1 keep1 by simp
    next
      case (Suc i')
      then have i': "i' < length frows" using i by simp
      have eq: "?rows1 ! (Suc r + i') = rows ! (Suc r + i')" by simp
      have idx: "r + i = Suc r + i'" using Suc by simp
      from ins i' have
        "length (rows' ! (Suc r + i')) = length (?rows1 ! (Suc r + i'))
         \<and> (\<forall>c < length dh. dh ! c \<notin> set fh
               \<longrightarrow> rows' ! (Suc r + i') ! c = ?rows1 ! (Suc r + i') ! c)"
        by blast
      then show ?thesis unfolding idx eq .
    qed
  qed
  ultimately show ?case by blast
qed

lemma total_rows_Cons:
  "total_rows ((forest, data) # forests) = length (e_rows data) + total_rows forests"
  by (simp add: total_rows_def)

lemma rows_before_0: "rows_before forests 0 = 0"
  by (simp add: rows_before_def total_rows_def)

lemma rows_before_Suc:
  "rows_before ((forest, data) # forests) (Suc f) = length (e_rows data) + rows_before forests f"
  by (simp add: rows_before_def total_rows_def)

lemma rows_before_lt:
  assumes "f < length forests" and "i < length (e_rows (snd (forests ! f)))"
  shows "rows_before forests f + i < total_rows forests"
  using assms
proof (induction forests arbitrary: f)
  case Nil
  then show ?case by simp
next
  case (Cons p forests)
  obtain forest data where p: "p = (forest, data)" by (cases p)
  show ?case
  proof (cases f)
    case 0
    then show ?thesis using Cons.prems p by (simp add: rows_before_0 total_rows_Cons)
  next
    case (Suc f')
    then show ?thesis
      using Cons.IH [of f'] Cons.prems p by (simp add: rows_before_Suc total_rows_Cons)
  qed
qed

lemma copy_forests_Inr:
  assumes "\<forall>p \<in> set forests. set (e_header (snd p)) \<subseteq> set dh"
    and "r + total_rows forests \<le> length rows"
  shows "\<exists>rows'. copy_forests dh forests (Suc r) rows = Inr rows'
           \<and> length rows' = length rows
           \<and> (\<forall>k < length rows. k < r \<or> r + total_rows forests \<le> k \<longrightarrow> rows' ! k = rows ! k)
           \<and> (\<forall>f < length forests. \<forall>i < length (e_rows (snd (forests ! f))).
                 length (rows' ! (r + rows_before forests f + i))
                   = length (rows ! (r + rows_before forests f + i))
                 \<and> (\<forall>c < length dh. dh ! c \<notin> set (e_header (snd (forests ! f)))
                       \<longrightarrow> rows' ! (r + rows_before forests f + i) ! c
                           = rows ! (r + rows_before forests f + i) ! c))"
  using assms
proof (induction forests arbitrary: r rows)
  case Nil
  then show ?case by simp
next
  case (Cons p forests)
  obtain forest data where p: "p = (forest, data)" by (cases p)
  let ?n = "length (e_rows data)"
  have hdr: "set (e_header data) \<subseteq> set dh" using Cons.prems(1) p by simp
  have room: "r + ?n \<le> length rows" using Cons.prems(2) p by (simp add: total_rows_Cons)
  from copy_rows_Inr [OF hdr room] obtain rows1 where
    run1: "copy_rows dh (e_header data) (e_rows data) (Suc r) rows = Inr (rows1, Suc (r + ?n))" and
    len1: "length rows1 = length rows" and
    out1: "\<forall>k < length rows. k < r \<or> r + ?n \<le> k \<longrightarrow> rows1 ! k = rows ! k" and
    ins1: "\<forall>i < ?n. length (rows1 ! (r + i)) = length (rows ! (r + i))
             \<and> (\<forall>c < length dh. dh ! c \<notin> set (e_header data)
                   \<longrightarrow> rows1 ! (r + i) ! c = rows ! (r + i) ! c)"
    by blast
  have hdrs: "\<forall>p \<in> set forests. set (e_header (snd p)) \<subseteq> set dh"
    using Cons.prems(1) by simp
  have room': "r + ?n + total_rows forests \<le> length rows1"
    using Cons.prems(2) p len1 by (simp add: total_rows_Cons)
  from Cons.IH [OF hdrs room'] obtain rows' where
    run: "copy_forests dh forests (Suc (r + ?n)) rows1 = Inr rows'" and
    len: "length rows' = length rows1" and
    out: "\<forall>k < length rows1. k < r + ?n \<or> r + ?n + total_rows forests \<le> k
            \<longrightarrow> rows' ! k = rows1 ! k" and
    ins: "\<forall>f < length forests. \<forall>i < length (e_rows (snd (forests ! f))).
            length (rows' ! (r + ?n + rows_before forests f + i))
              = length (rows1 ! (r + ?n + rows_before forests f + i))
            \<and> (\<forall>c < length dh. dh ! c \<notin> set (e_header (snd (forests ! f)))
                  \<longrightarrow> rows' ! (r + ?n + rows_before forests f + i) ! c
                      = rows1 ! (r + ?n + rows_before forests f + i) ! c)"
    by blast
  have "copy_forests dh (p # forests) (Suc r) rows = Inr rows'"
    using run1 run p by simp
  moreover have "length rows' = length rows" using len len1 by simp
  moreover have "\<forall>k < length rows. k < r \<or> r + total_rows (p # forests) \<le> k
                   \<longrightarrow> rows' ! k = rows ! k"
    using out out1 len1 p by (auto simp: total_rows_Cons)
  moreover have "\<forall>f < length (p # forests). \<forall>i < length (e_rows (snd ((p # forests) ! f))).
        length (rows' ! (r + rows_before (p # forests) f + i))
          = length (rows ! (r + rows_before (p # forests) f + i))
        \<and> (\<forall>c < length dh. dh ! c \<notin> set (e_header (snd ((p # forests) ! f)))
              \<longrightarrow> rows' ! (r + rows_before (p # forests) f + i) ! c
                  = rows ! (r + rows_before (p # forests) f + i) ! c)"
  proof (intro allI impI)
    fix f i
    assume f: "f < length (p # forests)" and i: "i < length (e_rows (snd ((p # forests) ! f)))"
    show "length (rows' ! (r + rows_before (p # forests) f + i))
          = length (rows ! (r + rows_before (p # forests) f + i))
        \<and> (\<forall>c < length dh. dh ! c \<notin> set (e_header (snd ((p # forests) ! f)))
              \<longrightarrow> rows' ! (r + rows_before (p # forests) f + i) ! c
                  = rows ! (r + rows_before (p # forests) f + i) ! c)"
    proof (cases f)
      case 0
      then have i': "i < ?n" using i p by simp
      then have "r + i < length rows1" "r + i < r + ?n" using room len1 by simp_all
      then have "rows' ! (r + i) = rows1 ! (r + i)" using out by blast
      then show ?thesis using 0 p ins1 i' by (simp add: rows_before_0)
    next
      case (Suc f')
      then have f': "f' < length forests" using f by simp
      have i': "i < length (e_rows (snd (forests ! f')))" using i Suc by simp
      let ?k = "r + ?n + rows_before forests f' + i"
      have idx: "r + rows_before (p # forests) f + i = ?k"
        using Suc p by (simp add: rows_before_Suc)
      have "rows_before forests f' + i < total_rows forests"
        using rows_before_lt [OF f' i'] .
      then have "?k < length rows" using room' len1 by simp
      then have same: "rows1 ! ?k = rows ! ?k" using out1 by simp
      from ins f' i' have
        "length (rows' ! ?k) = length (rows1 ! ?k)
            \<and> (\<forall>c < length dh. dh ! c \<notin> set (e_header (snd (forests ! f')))
                  \<longrightarrow> rows' ! ?k ! c = rows1 ! ?k ! c)"
        by blast
      then show ?thesis unfolding idx same using Suc by simp
    qed
  qed
  ultimately show ?case by blast
qed

lemma copy_cols_lengths:
  assumes "copy_cols dh fh frow js dataset_row rows = Inr rows'"
  shows "length rows' = length rows \<and> map length rows' = map length rows"
  using assms
proof (induction js arbitrary: rows)
  case Nil
  then show ?case by simp
next
  case (Cons j js)
  from Cons.prems obtain col where
    run: "copy_cols dh fh frow js dataset_row
            (rows[dataset_row - 1 := (rows ! (dataset_row - 1))[col := frow ! j]]) = Inr rows'"
    and r: "dataset_row - 1 < length rows"
    by (auto split: option.splits if_splits)
  have "map length (rows[dataset_row - 1 := (rows ! (dataset_row - 1))[col := frow ! j]])
          = map length rows"
    using r by (simp add: map_update list_update_same_conv)
  then show ?case using Cons.IH [OF run] by simp
qed

lemma copy_rows_lengths:
  assumes "copy_rows dh fh frows dataset_row rows = Inr (rows', dataset_row')"
  shows "map length rows' = map length rows"
  using assms
proof (induction frows arbitrary: rows dataset_row)
  case Nil
  then show ?case by simp
next
  case (Cons frow frows)
  from Cons.prems obtain rows1 where
    "copy_cols dh fh frow [0..<length fh] dataset_row rows = Inr rows1" and
    "copy_rows dh fh frows (Suc dataset_row) rows1 = Inr (rows', dataset_row')"
    by (auto split: sum.splits)
  then show ?case using Cons.IH [of "Suc dataset_row" rows1] copy_cols_lengths by fastforce
qed

lemma copy_forests_lengths:
  assumes "copy_forests dh forests dataset_row rows = Inr rows'"
  shows "map length rows' = map length rows"
  using assms
proof (induction forests arbitrary: rows dataset_row)
  case Nil
  then show ?case by simp
next
  case (Cons p forests)
  obtain forest data where p: "p = (forest, data)" by (cases p)
  from Cons.prems p obtain rows1 dataset_row1 where
    "copy_rows dh (e_header data) (e_rows data) dataset_row rows = Inr (rows1, dataset_row1)" and
    "copy_forests dh forests dataset_row1 rows1 = Inr rows'"
    by (auto split: sum.splits)
  then show ?case using Cons.IH [of dataset_row1 rows1] copy_rows_lengths by fastforce
qed

lemma length_dataset_header: "length (dataset_header sps) = 5 * length sps"
  by (induction sps) (simp_all add: dataset_header_def species_labels_def)

lemma dataset_header_nth:
  assumes "s < length sps" and "c < 5"
  shows "dataset_header sps ! (s * 5 + c) = species_labels (sps ! s) ! c"
  using assms
proof (induction sps arbitrary: s)
  case Nil
  then show ?case by simp
next
  case (Cons sp sps)
  have len: "length (species_labels sp) = 5" by (simp add: species_labels_def)
  have unfold: "dataset_header (sp # sps) = species_labels sp @ dataset_header sps"
    by (simp add: dataset_header_def)
  show ?case
  proof (cases s)
    case 0
    then show ?thesis using Cons.prems(2) len unfold by (simp add: nth_append)
  next
    case (Suc s')
    then have "dataset_header sps ! (s' * 5 + c) = species_labels (sps ! s') ! c"
      using Cons.IH [of s'] Cons.prems by simp
    moreover have "s * 5 + c = 5 + (s' * 5 + c)" using Suc by simp
    ultimately show ?thesis using Suc len unfold by (simp add: nth_append)
  qed
qed

lemma set_dataset_header: "set (dataset_header sps) = (\<Union>sp \<in> set sps. set (species_labels sp))"
  by (simp add: dataset_header_def)

lemma set_unique_first: "set (unique_first xs) = set xs"
  by (induction xs) auto

lemma label_suffixes:
  assumes f: "f = '' all shoots'' \<or> f = '' freshly browsed'' \<or> f = '' old browsed''
           \<or> f = '' forest coverage'' \<or> f = '' supply percentage''"
    and g: "g = '' all shoots'' \<or> g = '' freshly browsed'' \<or> g = '' old browsed''
           \<or> g = '' forest coverage'' \<or> g = '' supply percentage''"
    and "rev f @ x = rev g @ y"
  shows "x = y"
  using f g assms(3) by (elim disjE) simp_all

lemma species_labels_field:
  assumes "a \<in> set (species_labels sp)"
  shows "\<exists>f. (f = '' all shoots'' \<or> f = '' freshly browsed'' \<or> f = '' old browsed''
           \<or> f = '' forest coverage'' \<or> f = '' supply percentage'') \<and> a = sp @ f"
  using assms by (simp add: species_labels_def ex_disj_distrib conj_disj_distribR)

lemma label_same_species:
  assumes "a \<in> set (species_labels sp)" and "a \<in> set (species_labels sp')"
  shows "sp = sp'"
proof -
  from species_labels_field [OF assms(1)] obtain f where
    f: "f = '' all shoots'' \<or> f = '' freshly browsed'' \<or> f = '' old browsed''
           \<or> f = '' forest coverage'' \<or> f = '' supply percentage''" and af: "a = sp @ f"
    by (elim exE conjE)
  from species_labels_field [OF assms(2)] obtain g where
    g: "g = '' all shoots'' \<or> g = '' freshly browsed'' \<or> g = '' old browsed''
           \<or> g = '' forest coverage'' \<or> g = '' supply percentage''" and ag: "a = sp' @ g"
    by (elim exE conjE)
  have "rev (sp @ f) = rev (sp' @ g)" using af ag by simp
  then have "rev f @ rev sp = rev g @ rev sp'" by (simp only: rev_append)
  then have "rev sp = rev sp'" by (rule label_suffixes [OF f g])
  then show ?thesis by (simp only: rev_is_rev_conv)
qed

lemma forest_species_canonical:
  assumes "p \<in> set forests"
  shows "set (forest_species (snd p)) \<subseteq> set (canonical_species forests)"
proof -
  have "set (canonical_species forests) = (\<Union>q \<in> set forests. set (forest_species (snd q)))"
    by (simp add: canonical_species_def set_unique_first case_prod_beta)
  then show ?thesis using assms by blast
qed

lemma wf_header_in_dataset_header:
  assumes "p \<in> set forests" and "enriched_wf (snd p)"
  shows "set (e_header (snd p)) \<subseteq> set (dataset_header (canonical_species forests))"
proof -
  have "e_header (snd p) = dataset_header (forest_species (snd p))"
    using assms(2) by (simp add: enriched_wf_def)
  then have "set (e_header (snd p))
               = (\<Union>sp \<in> set (forest_species (snd p)). set (species_labels sp))"
    by (simp only: set_dataset_header)
  then show ?thesis
    using forest_species_canonical [OF assms(1)] unfolding set_dataset_header by blast
qed

lemma species_labels_nth_mem:
  assumes "c < 5"
  shows "species_labels sp ! c \<in> set (species_labels sp)"
proof -
  have "length (species_labels sp) = 5" by (simp add: species_labels_def)
  then show ?thesis using assms by (simp only: nth_mem)
qed

lemma absent_label_not_in_header:
  assumes "enriched_wf data" and "s < length sps" and "c < 5"
    and "sps ! s \<notin> set (forest_species data)"
  shows "dataset_header sps ! (s * 5 + c) \<notin> set (e_header data)"
proof
  assume "dataset_header sps ! (s * 5 + c) \<in> set (e_header data)"
  moreover have "dataset_header sps ! (s * 5 + c) = species_labels (sps ! s) ! c"
    using assms(2,3) by (rule dataset_header_nth)
  moreover have "e_header data = dataset_header (forest_species data)"
    using assms(1) by (simp add: enriched_wf_def)
  ultimately have "species_labels (sps ! s) ! c
                     \<in> (\<Union>sp \<in> set (forest_species data). set (species_labels sp))"
    by (simp only: set_dataset_header)
  then obtain sp where sp: "sp \<in> set (forest_species data)"
    and lab: "species_labels (sps ! s) ! c \<in> set (species_labels sp)"
    by blast
  have "sps ! s = sp"
    using species_labels_nth_mem [OF assms(3)] lab by (rule label_same_species)
  then show False using sp assms(4) by simp
qed

text \<open>
  Claim C4. For forests whose headers are the five labels of each of their species and
  whose rows are as wide as their header, the merging cells return a dataset: it has as
  many data rows as the forests have together, 5 columns for every canonical species in
  the header and in every row, and in every row of a forest (row \<open>i\<close> of forest \<open>f\<close> is
  dataset row \<open>rows_before forests f + i\<close>) the five fields of every canonical species
  that the forest does not have are 0.
\<close>

theorem build_dataset_shape_and_zero_fill:
  assumes "list_all (\<lambda>p. enriched_wf (snd p)) forests"
  shows "\<exists>ds. build_dataset forests = Inr ds
       \<and> length (ds_rows ds) = total_rows forests
       \<and> length (ds_header ds) = 5 * length (canonical_species forests)
       \<and> list_all (\<lambda>row. length row = 5 * length (canonical_species forests)) (ds_rows ds)
       \<and> (\<forall>f < length forests. \<forall>i < length (e_rows (snd (forests ! f))).
            \<forall>s < length (canonical_species forests).
              canonical_species forests ! s \<notin> set (forest_species (snd (forests ! f)))
              \<longrightarrow> (\<forall>c < 5. ds_rows ds ! (rows_before forests f + i) ! (s * 5 + c) = 0))"
proof -
  let ?sps = "canonical_species forests"
  let ?n = "length ?sps"
  let ?dh = "dataset_header ?sps"
  let ?rows0 = "replicate (total_rows forests) (replicate (?n * 5) (0::rat))"
  have wf: "enriched_wf (snd p)" if "p \<in> set forests" for p
    using assms that by (simp add: list_all_iff)
  have hdrs: "\<forall>p \<in> set forests. set (e_header (snd p)) \<subseteq> set ?dh"
    using wf wf_header_in_dataset_header by blast
  have room: "0 + total_rows forests \<le> length ?rows0" by simp
  from copy_forests_Inr [OF hdrs room] obtain rows' where
    run: "copy_forests ?dh forests (Suc 0) ?rows0 = Inr rows'" and
    len: "length rows' = length ?rows0" and
    ins: "\<forall>f < length forests. \<forall>i < length (e_rows (snd (forests ! f))).
            (\<forall>c < length ?dh. ?dh ! c \<notin> set (e_header (snd (forests ! f)))
                  \<longrightarrow> rows' ! (0 + rows_before forests f + i) ! c
                      = ?rows0 ! (0 + rows_before forests f + i) ! c)"
    by blast
  let ?ds = "\<lparr>ds_header = ?dh, ds_rows = rows'\<rparr>"
  have res: "build_dataset forests = Inr ?ds"
    using run by (simp add: build_dataset_def Let_def)
  have rows: "length (ds_rows ?ds) = total_rows forests" using len by simp
  have cols: "length (ds_header ?ds) = 5 * ?n" by (simp add: length_dataset_header)
  have "map length rows' = map length ?rows0" using copy_forests_lengths [OF run] .
  then have "\<forall>k < length rows'. length (rows' ! k) = ?n * 5"
    using len by (metis length_replicate nth_map nth_replicate)
  then have wide: "list_all (\<lambda>row. length row = 5 * ?n) (ds_rows ?ds)"
    by (simp add: list_all_length mult.commute)
  have zero: "\<forall>f < length forests. \<forall>i < length (e_rows (snd (forests ! f))).
            \<forall>s < ?n. ?sps ! s \<notin> set (forest_species (snd (forests ! f)))
              \<longrightarrow> (\<forall>c < 5. ds_rows ?ds ! (rows_before forests f + i) ! (s * 5 + c) = 0)"
  proof (intro allI impI)
    fix f i s c
    assume f: "f < length forests" and i: "i < length (e_rows (snd (forests ! f)))"
      and s: "s < ?n" and absent: "?sps ! s \<notin> set (forest_species (snd (forests ! f)))"
      and c: "c < (5::nat)"
    have wf_f: "enriched_wf (snd (forests ! f))" using wf f by simp
    have col: "s * 5 + c < length ?dh" using s c by (simp add: length_dataset_header)
    have out: "?dh ! (s * 5 + c) \<notin> set (e_header (snd (forests ! f)))"
      using absent_label_not_in_header [OF wf_f s c absent] .
    have k: "rows_before forests f + i < total_rows forests"
      using rows_before_lt [OF f i] .
    have "rows' ! (rows_before forests f + i) ! (s * 5 + c)
            = ?rows0 ! (rows_before forests f + i) ! (s * 5 + c)"
      using ins f i col out by simp
    also have "\<dots> = 0" using k s c by simp
    finally show "ds_rows ?ds ! (rows_before forests f + i) ! (s * 5 + c) = 0" by simp
  qed
  show ?thesis using res rows cols wide zero by blast
qed

text \<open>
  The two example forests give three rows of 15 columns; Bodza is not in the second
  forest, and its supply percentage in that forest's second row is 0.
\<close>

theorem build_dataset_shape_and_zero_fill_witness:
  "list_all (\<lambda>p. enriched_wf (snd p)) two_forests
   \<and> build_dataset two_forests = Inr two_forests_dataset
   \<and> total_rows two_forests = 3
   \<and> canonical_species two_forests = [''Fagyal'', ''Bodza'', ''Szeder'']
   \<and> forest_species (snd (two_forests ! 1)) = [''Szeder'', ''Fagyal'']
   \<and> rows_before two_forests 1 = 1
   \<and> ds_rows two_forests_dataset ! (rows_before two_forests 1 + 1) ! (1 * 5 + 4) = 0"
proof -
  have wf: "list_all (\<lambda>p. enriched_wf (snd p)) two_forests" by code_simp
  have res: "build_dataset two_forests = Inr two_forests_dataset" by code_simp
  have tot: "total_rows two_forests = 3" by code_simp
  have can: "canonical_species two_forests = [''Fagyal'', ''Bodza'', ''Szeder'']" by code_simp
  have fsp: "forest_species (snd (two_forests ! 1)) = [''Szeder'', ''Fagyal'']" by code_simp
  have before: "rows_before two_forests 1 = 1" by code_simp
  have f: "1 < length two_forests" by (simp add: two_forests_def)
  have i: "1 < length (e_rows (snd (two_forests ! 1)))" by (simp add: two_forests_def)
  have s: "1 < length (canonical_species two_forests)" using can by simp
  have absent: "canonical_species two_forests ! 1 \<notin> set (forest_species (snd (two_forests ! 1)))"
    unfolding can fsp by simp
  from build_dataset_shape_and_zero_fill [OF wf] obtain ds where
    ds: "build_dataset two_forests = Inr ds" and
    zero: "\<forall>f < length two_forests. \<forall>i < length (e_rows (snd (two_forests ! f))).
            \<forall>s < length (canonical_species two_forests).
              canonical_species two_forests ! s \<notin> set (forest_species (snd (two_forests ! f)))
              \<longrightarrow> (\<forall>c < 5. ds_rows ds ! (rows_before two_forests f + i) ! (s * 5 + c) = 0)"
    by blast
  have eq: "ds = two_forests_dataset" using ds res by simp
  have c: "(4::nat) < 5" by simp
  have "ds_rows ds ! (rows_before two_forests 1 + 1) ! (1 * 5 + 4) = 0"
    using zero f i s absent c by blast
  then show ?thesis using wf res tot can fsp before eq by simp
qed

section \<open>The finishing cells: normalizing and renaming\<close>

lemma normalize_cell_length: "length (normalize_cell cols j row) = length row"
  by (simp add: normalize_cell_def Let_def)

lemma normalize_cell_other: "m \<noteq> j \<Longrightarrow> normalize_cell cols j row ! m = row ! m"
  by (simp add: normalize_cell_def Let_def)

lemma normalize_cell_at:
  assumes "0 < j" and "j < length row"
  shows "normalize_cell cols j row ! j =
           (if row ! (j - 1) \<noteq> 0 then row ! j / row ! (j - 1) else 0)"
  using assms by (simp add: normalize_cell_def Let_def)

lemma normalize_column_length: "length (normalize_column header j rows) = length rows"
  by (simp add: normalize_column_def)

lemma normalize_column_row_length:
  "i < length rows \<Longrightarrow> length (normalize_column header j rows ! i) = length (rows ! i)"
  by (simp add: normalize_column_def normalize_cell_length)

lemma normalize_column_other:
  assumes "i < length rows" and "m \<noteq> j \<or> \<not> py_in ''freshly browsed'' (header ! j)"
  shows "normalize_column header j rows ! i ! m = rows ! i ! m"
  using assms by (auto simp: normalize_column_def normalize_cell_other)

lemma fold_normalize_column:
  assumes "i < length rows"
    and "\<forall>k \<in> set js. m \<noteq> k \<or> \<not> py_in ''freshly browsed'' (header ! k)"
  shows "length (fold (normalize_column header) js rows) = length rows
       \<and> length (fold (normalize_column header) js rows ! i) = length (rows ! i)
       \<and> fold (normalize_column header) js rows ! i ! m = rows ! i ! m"
  using assms
proof (induction js arbitrary: rows)
  case Nil
  then show ?case by simp
next
  case (Cons k js)
  have i: "i < length (normalize_column header k rows)"
    using Cons.prems(1) by (simp add: normalize_column_length)
  have rest: "\<forall>k \<in> set js. m \<noteq> k \<or> \<not> py_in ''freshly browsed'' (header ! k)"
    using Cons.prems(2) by simp
  have here: "m \<noteq> k \<or> \<not> py_in ''freshly browsed'' (header ! k)"
    using Cons.prems(2) by simp
  from Cons.IH [OF i rest] show ?case
    using normalize_column_other [OF Cons.prems(1) here]
    by (simp add: normalize_column_length normalize_column_row_length Cons.prems(1))
qed

text \<open>
  Claim C5. In a rectangular dataset, for a column \<open>j\<close> the cell recognises as freshly
  browsed whose preceding column is not one (it is the paired all shoots column), and for
  every data row: the value becomes freshly_browsed / all_shoots when all_shoots is
  nonzero and 0 when it is zero, whatever was recorded; all_shoots is left as it was; and
  for nonzero all_shoots the proportion times all_shoots is the original count.
\<close>

theorem normalize_freshly_browsed_values:
  assumes "list_all (\<lambda>r. length r = length (ds_header ds)) (ds_rows ds)"
    and "0 < j" and "j < length (ds_header ds)"
    and "py_in ''freshly browsed'' (ds_header ds ! j)"
    and "\<not> py_in ''freshly browsed'' (ds_header ds ! (j - 1))"
    and "i < length (ds_rows ds)"
  shows "ds_rows (normalize_freshly_browsed ds) ! i ! j =
           (if ds_rows ds ! i ! (j - 1) \<noteq> 0
            then ds_rows ds ! i ! j / ds_rows ds ! i ! (j - 1) else 0)
       \<and> ds_rows (normalize_freshly_browsed ds) ! i ! (j - 1) = ds_rows ds ! i ! (j - 1)
       \<and> (ds_rows ds ! i ! (j - 1) \<noteq> 0 \<longrightarrow>
            ds_rows (normalize_freshly_browsed ds) ! i ! j
              * ds_rows (normalize_freshly_browsed ds) ! i ! (j - 1) = ds_rows ds ! i ! j)"
proof -
  let ?h = "ds_header ds"
  let ?rows = "ds_rows ds"
  let ?n = "length ?h"
  let ?before = "fold (normalize_column ?h) [0..<j] ?rows"
  let ?at = "normalize_column ?h j ?before"
  let ?final = "fold (normalize_column ?h) [Suc j..<?n] ?at"
  have split: "[0..<?n] = [0..<j] @ j # [Suc j..<?n]"
    using assms(3) by (metis le_add2 le_add_same_cancel2 upt_add_eq_append upt_conv_Cons less_imp_add_positive add.commute)
  have final: "ds_rows (normalize_freshly_browsed ds) = ?final"
    by (simp add: normalize_freshly_browsed_def split)
  have len_row: "length (?rows ! i) = ?n"
    using assms(1,6) by (simp add: list_all_length)
  have before_j: "\<forall>k \<in> set [0..<j]. j \<noteq> k \<or> \<not> py_in ''freshly browsed'' (?h ! k)"
    by auto
  have before_p: "\<forall>k \<in> set [0..<j]. j - 1 \<noteq> k \<or> \<not> py_in ''freshly browsed'' (?h ! k)"
    using assms(5) by auto
  from fold_normalize_column [OF assms(6) before_j] have
    b_len: "length ?before = length ?rows" and
    b_row: "length (?before ! i) = ?n" and
    b_j: "?before ! i ! j = ?rows ! i ! j"
    using len_row by simp_all
  from fold_normalize_column [OF assms(6) before_p] have
    b_p: "?before ! i ! (j - 1) = ?rows ! i ! (j - 1)" by simp
  have i_b: "i < length ?before" using b_len assms(6) by simp
  have at_j: "?at ! i ! j =
           (if ?rows ! i ! (j - 1) \<noteq> 0 then ?rows ! i ! j / ?rows ! i ! (j - 1) else 0)"
    using assms(2,3,4) i_b b_row b_j b_p
    by (simp add: normalize_column_def normalize_cell_at)
  have "j - 1 \<noteq> j" using assms(2) by simp
  then have "?at ! i ! (j - 1) = ?before ! i ! (j - 1)"
    using normalize_column_other [OF i_b] by blast
  then have at_p: "?at ! i ! (j - 1) = ?rows ! i ! (j - 1)"
    using b_p by simp
  have i_at: "i < length ?at" using i_b by (simp add: normalize_column_length)
  have after_j: "\<forall>k \<in> set [Suc j..<?n]. j \<noteq> k \<or> \<not> py_in ''freshly browsed'' (?h ! k)"
    by auto
  have after_p: "\<forall>k \<in> set [Suc j..<?n]. j - 1 \<noteq> k \<or> \<not> py_in ''freshly browsed'' (?h ! k)"
    by auto
  have f_j: "?final ! i ! j = ?at ! i ! j"
    using fold_normalize_column [OF i_at after_j] by simp
  have f_p: "?final ! i ! (j - 1) = ?at ! i ! (j - 1)"
    using fold_normalize_column [OF i_at after_p] by simp
  show ?thesis using final f_j f_p at_j at_p by simp
qed

text \<open>Two rows of the example: 2 of 4 shoots become 1/2, and 3 browsed of 0 shoots become 0.\<close>

theorem normalize_freshly_browsed_values_witness:
  "list_all (\<lambda>r. length r = length (ds_header counted_dataset)) (ds_rows counted_dataset)
   \<and> py_in ''freshly browsed'' (ds_header counted_dataset ! 1)
   \<and> \<not> py_in ''freshly browsed'' (ds_header counted_dataset ! (1 - 1))
   \<and> ds_rows counted_dataset ! 0 = [4, 2, 1]
   \<and> ds_rows (normalize_freshly_browsed counted_dataset) ! 0 ! 1 = 1 / 2
   \<and> ds_rows counted_dataset ! 1 = [0, 3, 0]
   \<and> ds_rows (normalize_freshly_browsed counted_dataset) ! 1 ! 1 = 0"
proof -
  have rect: "list_all (\<lambda>r. length r = length (ds_header counted_dataset))
                (ds_rows counted_dataset)"
    by (simp add: counted_dataset_def)
  have j: "(0::nat) < 1" "1 < length (ds_header counted_dataset)"
    by (simp_all add: counted_dataset_def)
  have fb: "py_in ''freshly browsed'' (ds_header counted_dataset ! 1)"
    by code_simp
  have nfb: "\<not> py_in ''freshly browsed'' (ds_header counted_dataset ! (1 - 1))"
    by code_simp
  have i: "0 < length (ds_rows counted_dataset)" "1 < length (ds_rows counted_dataset)"
    by (simp_all add: counted_dataset_def)
  have rows: "ds_rows counted_dataset ! 0 = [4, 2, 1]" "ds_rows counted_dataset ! 1 = [0, 3, 0]"
    by (simp_all add: counted_dataset_def)
  show ?thesis
    using normalize_freshly_browsed_values [OF rect j fb nfb i(1)]
      normalize_freshly_browsed_values [OF rect j fb nfb i(2)] rect fb nfb rows
    by simp
qed

text \<open>
  The columns of a merged dataset fit the theorem: for a species whose name does not
  itself contain \<open>freshly browsed\<close>, column \<open>5s + 1\<close> of \<open>dataset_header\<close> is a
  freshly browsed column and column \<open>5s\<close>, its all shoots column, is not.
\<close>

lemma py_in_append_left: "py_in sub ys \<Longrightarrow> py_in sub (xs @ ys)"
  by (induction xs) simp_all

lemma py_in_append_no_straddle:
  assumes "\<not> py_in sub xs" and "\<not> py_in sub l"
    and "\<forall>k \<in> set [1..<length sub]. take (length sub - k) l \<noteq> drop k sub"
  shows "\<not> py_in sub (xs @ l)"
  using assms(1)
proof (induction xs)
  case Nil
  then show ?case using assms(2) by simp
next
  case (Cons c cs)
  let ?n = "length sub"
  from Cons.prems have here: "take ?n (c # cs) \<noteq> sub" and rest: "\<not> py_in sub cs"
    by simp_all
  have "take ?n ((c # cs) @ l) \<noteq> sub"
  proof (cases "?n \<le> length (c # cs)")
    case True
    then have "?n - length (c # cs) = 0" by simp
    then have "take ?n ((c # cs) @ l) = take ?n (c # cs)" by (simp only: take_append take_0 append_Nil2)
    then show ?thesis using here by simp
  next
    case False
    let ?k = "length (c # cs)"
    have k: "?k \<in> set [1..<?n]" using False by simp
    have "take ?n (c # cs) = c # cs" using False by simp
    then have split: "take ?n ((c # cs) @ l) = (c # cs) @ take (?n - ?k) l"
      by (simp only: take_append)
    show ?thesis
    proof
      assume "take ?n ((c # cs) @ l) = sub"
      then have "(c # cs) @ take (?n - ?k) l = sub" using split by simp
      then have "drop ?k ((c # cs) @ take (?n - ?k) l) = drop ?k sub" by (simp only:)
      then have "take (?n - ?k) l = drop ?k sub" by (simp only: append_eq_conv_conj drop_append drop_all order_refl diff_self_eq_0 drop_0 append_Nil)
      then show False using assms(3) k by blast
    qed
  qed
  moreover have "\<not> py_in sub (cs @ l)" using Cons.IH rest by simp
  ultimately show ?case by simp
qed

lemma freshly_browsed_label: "py_in ''freshly browsed'' (sp @ '' freshly browsed'')"
proof -
  have "py_in ''freshly browsed'' '' freshly browsed''" by code_simp
  then show ?thesis by (rule py_in_append_left)
qed

lemma all_shoots_label:
  assumes "\<not> py_in ''freshly browsed'' sp"
  shows "\<not> py_in ''freshly browsed'' (sp @ '' all shoots'')"
proof -
  have tail: "\<not> py_in ''freshly browsed'' '' all shoots''" by code_simp
  have "list_all (\<lambda>k. take (length ''freshly browsed'' - k) '' all shoots''
                          \<noteq> drop k ''freshly browsed'') [1..<length ''freshly browsed'']"
    by code_simp
  then have "\<forall>k \<in> set [1..<length ''freshly browsed''].
               take (length ''freshly browsed'' - k) '' all shoots'' \<noteq> drop k ''freshly browsed''"
    unfolding list_all_iff .
  with assms tail show ?thesis by (rule py_in_append_no_straddle)
qed

lemma merged_header_columns:
  assumes "s < length sps" and "\<not> py_in ''freshly browsed'' (sps ! s)"
  shows "py_in ''freshly browsed'' (dataset_header sps ! (s * 5 + 1))"
    and "\<not> py_in ''freshly browsed'' (dataset_header sps ! (s * 5 + 1 - 1))"
proof -
  have "dataset_header sps ! (s * 5 + 1) = species_labels (sps ! s) ! 1"
    using dataset_header_nth [OF assms(1), of 1] by simp
  then have fb: "dataset_header sps ! (s * 5 + 1) = sps ! s @ '' freshly browsed''"
    by (simp add: species_labels_def)
  have "dataset_header sps ! (s * 5 + 0) = species_labels (sps ! s) ! 0"
    using dataset_header_nth [OF assms(1), of 0] by simp
  then have shoots: "dataset_header sps ! (s * 5 + 1 - 1) = sps ! s @ '' all shoots''"
    by (simp add: species_labels_def)
  show "py_in ''freshly browsed'' (dataset_header sps ! (s * 5 + 1))"
    unfolding fb by (rule freshly_browsed_label)
  show "\<not> py_in ''freshly browsed'' (dataset_header sps ! (s * 5 + 1 - 1))"
    unfolding shoots using assms(2) by (rule all_shoots_label)
qed





section \<open>The inference pipeline on the example sheet\<close>

text \<open>
  Claim C8 on the code. The loop over \<open>ts_values\<close> starts at row 1, as the training loop
  does where row 0 is the header; here row 0 is the first sampling point, which is left
  out of the counts while it is counted in \<open>sampling_points\<close>. On the example sheet the
  first species is present at all 10 points and holds 15 of the 18 shoots, the second is
  present at the first point only: the code gives frequencies 9/10 and 0 and proportions
  1 and 0, the specification 1 and 1/10, 5/6 and 1/6.
\<close>

theorem properties_table_skips_first_point:
  "properties_table forecast_sheet = Inr (9 / 10 # replicate 26 0, 1 # replicate 26 0)
   \<and> spec_frequency forecast_sheet 0 = 1
   \<and> spec_frequency forecast_sheet 1 = 1 / 10
   \<and> spec_rps forecast_sheet 0 = 5 / 6
   \<and> spec_rps forecast_sheet 1 = 1 / 6"
  by code_simp

text \<open>
  Claim C9 on the code. \<open>adjust_predictions\<close> is given the normalized table, in which
  a column is 0 wherever the section holds the column's minimum. The first section of the
  example has 5 shoots of the first species and a prediction of 1/4, and is set to the
  no-supply value.
\<close>

theorem adjust_predictions_on_normalized_supply:
  "(case browsing_forecast forecast_sheet example_models of
      Inl e \<Rightarrow> False
    | Inr fc \<Rightarrow>
        fc_sections fc ! 0 ! (0 * 3) = 5
        \<and> fc_data fc ! 0 ! (0 * 3) = 0
        \<and> fc_predicted fc ! 0 ! 0 = 1 / 4
        \<and> fc_section_estimates fc ! 0 ! 0 = noSupply_value)"
  by code_simp

text \<open>
  Claim C10 on the code. The weights are taken from the normalized table as well: the
  sections hold 5 and 10 shoots of the first species, a third and two thirds of its 15,
  and weigh 0 and 1; the forecast is the second section's estimate alone.
\<close>

theorem forest_estimates_weights_on_normalized_supply:
  "(case browsing_forecast forecast_sheet example_models of
      Inl e \<Rightarrow> False
    | Inr fc \<Rightarrow>
        map (\<lambda>r. r ! (0 * 3)) (fc_sections fc) = [5, 10]
        \<and> spec_weight (fc_sections fc) 0 0 = 1 / 3
        \<and> spec_weight (fc_sections fc) 0 1 = 2 / 3
        \<and> section_contributions (fc_data fc) 0 = [0, 1]
        \<and> map (\<lambda>r. r ! 0) (fc_section_estimates fc) = [noSupply_value, 1 / 2]
        \<and> fc_forest_estimates fc ! 0 = 1 / 2)"
  by code_simp

text \<open>
  The same in general. \<open>adjust_predictions\<close> tests the table it is given; after
  \<open>normalize_TS\<close> a TS cell is 0 exactly where the section holds the minimum of its
  column; and with a single section every TS cell is 0, so every forecast is the
  no-supply value.
\<close>

lemma adjust_predictions_nth:
  assumes "i < length y_pred" and "j < length (y_pred ! i)"
  shows "adjust_predictions y_pred X noSupply ! i ! j =
           (if X ! i ! (j * 3) = 0 then noSupply
            else if y_pred ! i ! j < 0 then 0 else y_pred ! i ! j)"
  using assms by (simp add: adjust_predictions_def)

lemma fold_min_le: "fold min xs (a::rat) \<le> a"
proof (induction xs arbitrary: a)
  case Nil
  then show ?case by simp
next
  case (Cons x xs)
  have "fold min xs (min x a) \<le> min x a" by (rule Cons.IH)
  then show ?case by simp
qed

lemma fold_max_ge: "(a::rat) \<le> fold max xs a"
proof (induction xs arbitrary: a)
  case Nil
  then show ?case by simp
next
  case (Cons x xs)
  have "max x a \<le> fold max xs (max x a)" by (rule Cons.IH)
  then show ?case by simp
qed

lemma col_min_le_col_max: "col_min X c \<le> col_max X c"
  unfolding col_min_def col_max_def
  using fold_min_le fold_max_ge by (rule order_trans)

lemma normalize_TS_zero_iff:
  assumes "normalize_TS X = Inr data" and "i < length X" and "c < length (X ! i)"
    and "c mod 3 = 0"
  shows "(data ! i ! c = 0) = (X ! i ! c = col_min X c)"
proof -
  have "0 < col_max X c - col_min X c + smoothing"
    using col_min_le_col_max [of X c] by (simp add: smoothing_def add_nonneg_pos)
  moreover have "data ! i ! c = (X ! i ! c - col_min X c) / (col_max X c - col_min X c + smoothing)"
    using assms by (auto simp: normalize_TS_def split: if_splits)
  ultimately show ?thesis by simp
qed

lemma length_concat_triples:
  "length (concat (map (\<lambda>j. [f j, g j, h j]) js)) = 3 * length js"
  by (induction js) simp_all

lemma sections_single:
  assumes "length unaggregated div 5 = 1"
  shows "\<exists>row. sections unaggregated nr_species = [row] \<and> length row = 3 * nr_species"
  using assms by (simp add: sections_def length_concat_triples)

lemma normalize_TS_single:
  assumes "j * 3 < length row"
  shows "\<exists>data. normalize_TS [row] = Inr [data] \<and> data ! (j * 3) = 0"
  using assms by (simp add: normalize_TS_def col_min_def)

lemma forest_estimates_no_supply:
  assumes "\<forall>sp < nr_species. sum_list (map (\<lambda>r. r ! (sp * 3)) data) = 0"
  shows "forest_estimates data estimates nr_species = replicate nr_species noSupply_value"
proof -
  have "forest_estimates data estimates nr_species = map (\<lambda>sp. noSupply_value) [0..<nr_species]"
    unfolding forest_estimates_def using assms by (intro map_cong) (simp_all add: Let_def)
  then show ?thesis by (simp add: map_replicate_const)
qed

lemma single_section_forecast:
  assumes "browsing_forecast sh models = Inr fc"
    and "length (ts_values sh) div 5 = 1"
  shows "fc_forest_estimates fc = replicate (length (sheet_species sh)) noSupply_value"
proof -
  let ?nr = "length (sheet_species sh)"
  from assms(1) obtain f_values rps_values data where
    norm: "normalize_TS (sections (unaggregated_data sh f_values rps_values) ?nr) = Inr data" and
    fc: "fc_forest_estimates fc
           = forest_estimates data
               (adjust_predictions (section_estimates models data ?nr) data noSupply_value) ?nr"
    by (auto simp: browsing_forecast_def Let_def split: sum.splits prod.splits)
  have "length (unaggregated_data sh f_values rps_values) div 5 = 1"
    using assms(2) by (simp add: unaggregated_data_def)
  from sections_single [OF this, of ?nr] obtain row where
    row: "sections (unaggregated_data sh f_values rps_values) ?nr = [row]" and
    len: "length row = 3 * ?nr"
    by blast
  have "sum_list (map (\<lambda>r. r ! (sp * 3)) data) = 0" if "sp < ?nr" for sp
  proof -
    have "sp * 3 < length row" using that len by simp
    from normalize_TS_single [OF this] norm row obtain d where
      "data = [d]" "d ! (sp * 3) = 0" by auto
    then show ?thesis by simp
  qed
  then show ?thesis using fc forest_estimates_no_supply by simp
qed

end
